theory Spec2Isabelle
  imports Complex_Main "HOL-Library.Multiset"
begin

section \<open>The in-viewport observer of super-bowl-guide\<close>

text \<open>
  The development embeds the class \<open>Observer\<close> (the intersection observer helper of the
  guide): its constructor, \<open>addElements\<close>, \<open>onObserve\<close> and \<open>stop\<close>, together with the
  parts of the platform it calls: the DOM's \<open>IntersectionObserver\<close> (a list of observation
  targets and a callback) and lodash's \<open>orderBy\<close> and \<open>throttle\<close>.

  Numbers that the code only compares (\<open>intersectionRatio\<close>, \<open>boundingClientRect.y\<close>,
  \<open>visibleThreshold\<close>) are rationals: every finite double is a rational and the comparisons
  of finite doubles are those of the rationals. Times are integers
  (milliseconds).
\<close>

subsection \<open>Values, elements and intersection entries\<close>

datatype js_error = TypeError | ReferenceError | SyntaxError

text \<open>The first argument of the \<open>onObserve\<close> option: \<open>undefined\<close>, or what
  \<open>getAttribute\<close> returns (\<open>null\<close> or a string).\<close>

datatype js_value = JUndefined | JNull | JString string

record element =
  node :: nat
  attributes :: "(string \<times> string) list"

definition getAttribute :: "element \<Rightarrow> string \<Rightarrow> js_value" where
  "getAttribute e name =
     (case map_of (attributes e) name of None \<Rightarrow> JNull | Some v \<Rightarrow> JString v)"

text \<open>An \<open>IntersectionObserverEntry\<close> as the browser creates it for one notification:
  it has no \<open>inView\<close> property, and \<open>boundingClientRect.y\<close> is a number (the top edge
  of the bounding box).\<close>

record entry =
  target :: element
  intersectionRatio :: rat
  boundingClientRect_y :: rat

text \<open>The same entry as the option callback sees it: \<open>onObserve\<close> sets the property
  \<open>inView\<close> on the first entry at most; where it is not set, reading it gives
  \<open>undefined\<close>, which is \<open>False\<close> here.\<close>

record marked =
  entry_of :: entry
  inView :: bool

subsection \<open>lodash: \<open>orderBy\<close>\<close>

text \<open>
  \<open>_.orderBy(entries, ['intersectionRatio', e => e.boundingClientRect.y], ['desc', 'asc'])\<close>
  pairs every value with its index, sorts the pairs with \<open>compareMultiple\<close> and returns
  the values. \<open>compareMultiple\<close> never returns \<open>0\<close> on two different indexes, so the
  result of \<open>Array.prototype.sort\<close> is the one list in that order; insertion builds it.
\<close>

definition compareAscending :: "rat \<Rightarrow> rat \<Rightarrow> int" where
  "compareAscending v other = (if v > other then 1 else if v < other then - 1 else 0)"

definition compareMultiple :: "nat \<times> entry \<Rightarrow> nat \<times> entry \<Rightarrow> int" where
  "compareMultiple object other =
     (let r0 = compareAscending (intersectionRatio (snd object)) (intersectionRatio (snd other))
      in if r0 \<noteq> 0 then r0 * (- 1)
         else
           let r1 = compareAscending (boundingClientRect_y (snd object))
                      (boundingClientRect_y (snd other))
           in if r1 \<noteq> 0 then r1 * 1
              else int (fst object) - int (fst other))"

fun baseSortBy_insert :: "nat \<times> entry \<Rightarrow> (nat \<times> entry) list \<Rightarrow> (nat \<times> entry) list" where
  "baseSortBy_insert x [] = [x]"
| "baseSortBy_insert x (y # ys) =
     (if compareMultiple x y < 0 then x # y # ys else y # baseSortBy_insert x ys)"

definition baseSortBy :: "(nat \<times> entry) list \<Rightarrow> (nat \<times> entry) list" where
  "baseSortBy xs = foldr baseSortBy_insert xs []"

definition orderBy :: "entry list \<Rightarrow> entry list" where
  "orderBy entries = map snd (baseSortBy (enumerate 0 entries))"

subsection \<open>Options\<close>

text \<open>The option object as the caller passes it. A field that is left out is
  \<open>None\<close> (\<open>ThrottleUnset\<close>, \<open>NoElements\<close>); the callback \<open>onObserve\<close> of the
  options is the host's and is not a field here: its calls are recorded.\<close>

datatype throttle_option = ThrottleUnset | ThrottleFalse | ThrottleMs int

datatype root_option = RootElement element | RootSelector string

text \<open>
  What \<open>addElements\<close> may be given, and what \<open>options.elements\<close> may hold. The code
  asks \<open>_.isArrayLike\<close> first and \<open>_.isElement\<close> second, and then calls \<open>forEach\<close> on
  the argument and \<open>push\<close> on the registry whether or not they have these methods:
  \<^item> \<open>ArrayLike has_forEach has_push items\<close> is an array-like object (it has a
    length and is not a function) with its indexed items: an \<open>Array\<close> has both methods, a
    \<open>NodeList\<close> has \<open>forEach\<close> only, a jQuery object has \<open>push\<close> only, and an
    \<open>HTMLCollection\<close>, an \<open>arguments\<close> object and the elements that have a length
    (\<open>form\<close>, \<open>select\<close>) have neither;
  \<^item> \<open>StringValue s\<close> is a string: array-like whatever its length, with neither
    method, and falsy when empty;
  \<^item> \<open>Single e\<close> is an element that is not array-like;
  \<^item> \<open>NoElements\<close> is any other value (\<open>undefined\<close>, \<open>null\<close>, a number, a plain
    object, a function): neither branch of \<open>addElements\<close> is taken for it, so its
    truthiness makes no difference to the constructor.
  An item of an array-like object is an element or something that is not one.
\<close>

datatype item = Elem element | NotElem

datatype elements_value =
    NoElements
  | Single element
  | ArrayLike bool bool "item list"
  | StringValue string

text \<open>An \<open>Array\<close> of elements.\<close>

abbreviation Collection :: "element list \<Rightarrow> elements_value" where
  "Collection es \<equiv> ArrayLike True True (map Elem es)"

record config =
  cfg_throttle :: throttle_option
  cfg_attribute :: "string option"
  cfg_visibleThreshold :: "rat option"
  cfg_root :: "root_option option"
  cfg_forceItem :: "bool option"
  cfg_elements :: elements_value

text \<open>\<open>this.options\<close> after the constructor's defaults. \<open>root_ref\<close> is \<open>None\<close> for
  \<open>null\<close>.\<close>

record observer_options =
  throttle :: throttle_option
  attribute :: string
  visibleThreshold :: rat
  root_ref :: "root_option option"
  forceItem :: bool
  elements :: elements_value

definition throttle_truthy :: "throttle_option \<Rightarrow> bool" where
  "throttle_truthy t = (case t of ThrottleMs n \<Rightarrow> n \<noteq> 0 | _ \<Rightarrow> False)"

definition root_truthy :: "root_option option \<Rightarrow> bool" where
  "root_truthy r =
     (case r of None \<Rightarrow> False | Some (RootElement e) \<Rightarrow> True | Some (RootSelector s) \<Rightarrow> s \<noteq> [])"

definition elements_truthy :: "elements_value \<Rightarrow> bool" where
  "elements_truthy v =
     (case v of
        NoElements \<Rightarrow> False
      | Single e \<Rightarrow> True
      | ArrayLike has_forEach has_push items \<Rightarrow> True
      | StringValue s \<Rightarrow> s \<noteq> [])"

subsection \<open>\<open>onObserve\<close>\<close>

text \<open>One call of the option callback: the identifier, the entry in view (\<open>None\<close> for
  \<open>undefined\<close>) and the sorted entries.\<close>

datatype call = Call js_value "marked option" "marked list"

definition onObserve :: "observer_options \<Rightarrow> entry list \<Rightarrow> js_error + call" where
  "onObserve opts entries =
     (case orderBy entries of
        [] \<Rightarrow> Inl TypeError
      | sorted0 # rest \<Rightarrow>
          let sorted0_inView =
                (intersectionRatio sorted0 \<ge> visibleThreshold opts \<or> forceItem opts);
              sorted0' = \<lparr>entry_of = sorted0, inView = sorted0_inView\<rparr>
          in Inr (Call (if sorted0_inView then getAttribute (target sorted0) (attribute opts)
                        else JUndefined)
                       (if sorted0_inView then Some sorted0' else None)
                       (sorted0' # map (\<lambda>e. \<lparr>entry_of = e, inView = False\<rparr>) rest)))"

subsection \<open>lodash: \<open>throttle\<close>\<close>

text \<open>
  lodash is a dependency of the guide (the global \<open>_\<close>), not part of its source; its
  \<open>throttle\<close> is embedded as lodash 4 implements it: \<open>_.throttle(func, wait)\<close> is
  \<open>debounce(func, wait, {leading: true, maxWait: wait, trailing: true})\<close>, and the
  functions below are the inner functions of \<open>debounce\<close>. The record holds the variables
  of the closure; \<open>timerId\<close> is the time at which the pending timer is due. The
  constructor does not keep the throttled function, so nothing calls its \<open>cancel\<close> or
  \<open>flush\<close>.
\<close>

record debounced =
  wait :: int
  lastArgs :: "entry list option"
  lastCallTime :: "int option"
  lastInvokeTime :: int
  timerId :: "int option"

definition throttle_new :: "int \<Rightarrow> debounced" where
  "throttle_new w =
     \<lparr>wait = w, lastArgs = None, lastCallTime = None, lastInvokeTime = 0, timerId = None\<rparr>"

datatype handler = Unwrapped | Throttled debounced

text \<open>The calls of \<open>onObserve\<close> that the wrapper makes are recorded with their time and
  what \<open>onObserve\<close> did: the call of the option callback, or the error thrown.\<close>

type_synonym calls = "(int \<times> (js_error + call)) list"

text \<open>With \<open>maxing\<close> set and \<open>maxWait = max wait wait\<close>. \<open>lastCallTime\<close> is
  \<open>undefined\<close> before the first call.\<close>

definition shouldInvoke :: "debounced \<Rightarrow> int \<Rightarrow> bool" where
  "shouldInvoke d time =
     (case lastCallTime d of
        None \<Rightarrow> True
      | Some lct \<Rightarrow>
          time - lct \<ge> wait d \<or> time - lct < 0 \<or> time - lastInvokeTime d \<ge> wait d)"

text \<open>\<open>remainingWait\<close> runs only after \<open>shouldInvoke\<close> was false, so \<open>lastCallTime\<close> is
  set; with \<open>undefined\<close> the result is \<open>NaN\<close>, a delay that \<open>setTimeout\<close> reads as 0.\<close>

definition remainingWait :: "debounced \<Rightarrow> int \<Rightarrow> int" where
  "remainingWait d time =
     (case lastCallTime d of
        None \<Rightarrow> 0
      | Some lct \<Rightarrow> min (wait d - (time - lct)) (wait d - (time - lastInvokeTime d)))"

text \<open>\<open>setTimeout(f, delay)\<close> at \<open>time\<close>: the timer is due at \<open>time + delay\<close>, a
  negative delay counting as 0.\<close>

definition setTimeout :: "int \<Rightarrow> int \<Rightarrow> int option" where
  "setTimeout time delay = Some (time + max 0 delay)"

definition invokeFunc ::
    "observer_options \<Rightarrow> int \<Rightarrow> debounced \<times> calls \<Rightarrow> debounced \<times> calls" where
  "invokeFunc opts time = (\<lambda>(d, log).
     (d\<lparr>lastArgs := None, lastInvokeTime := time\<rparr>,
      log @ [(time, onObserve opts (case lastArgs d of Some args \<Rightarrow> args | None \<Rightarrow> []))]))"

definition leadingEdge ::
    "observer_options \<Rightarrow> int \<Rightarrow> debounced \<times> calls \<Rightarrow> debounced \<times> calls" where
  "leadingEdge opts time = (\<lambda>(d, log).
     invokeFunc opts time
       (d\<lparr>lastInvokeTime := time, timerId := setTimeout time (wait d)\<rparr>, log))"

definition trailingEdge ::
    "observer_options \<Rightarrow> int \<Rightarrow> debounced \<times> calls \<Rightarrow> debounced \<times> calls" where
  "trailingEdge opts time = (\<lambda>(d, log).
     if lastArgs d \<noteq> None then invokeFunc opts time (d\<lparr>timerId := None\<rparr>, log)
     else (d\<lparr>timerId := None, lastArgs := None\<rparr>, log))"

definition timerExpired ::
    "observer_options \<Rightarrow> int \<Rightarrow> debounced \<times> calls \<Rightarrow> debounced \<times> calls" where
  "timerExpired opts time = (\<lambda>(d, log).
     if shouldInvoke d time then trailingEdge opts time (d, log)
     else (d\<lparr>timerId := setTimeout time (remainingWait d time)\<rparr>, log))"

text \<open>The throttled function called at \<open>time\<close> with a batch.\<close>

definition debounced_call ::
    "observer_options \<Rightarrow> int \<Rightarrow> entry list \<Rightarrow> debounced \<times> calls \<Rightarrow> debounced \<times> calls" where
  "debounced_call opts time args = (\<lambda>(d, log).
     let isInvoking = shouldInvoke d time;
         d1 = d\<lparr>lastArgs := Some args, lastCallTime := Some time\<rparr>
     in if isInvoking \<and> timerId d1 = None then leadingEdge opts time (d1, log)
        else if isInvoking
        then invokeFunc opts time (d1\<lparr>timerId := setTimeout time (wait d1)\<rparr>, log)
        else if timerId d1 = None then (d1\<lparr>timerId := setTimeout time (wait d1)\<rparr>, log)
        else (d1, log))"

subsection \<open>The environment and the tracker\<close>

text \<open>The globals the constructor reads. \<open>window\<close> is undeclared (reading it is a
  \<open>ReferenceError\<close>), falsy, or the window object with or without the property
  \<open>IntersectionObserver\<close>. \<open>document.querySelector\<close> returns an element or \<open>null\<close>, or
  throws (a \<open>SyntaxError\<close> on a malformed selector).\<close>

datatype window_global = WindowUndeclared | WindowFalsy | Window bool

record env =
  document_declared :: bool
  window :: window_global
  querySelector :: "string \<Rightarrow> js_error + element option"

definition document_querySelector :: "env \<Rightarrow> string \<Rightarrow> js_error + element option" where
  "document_querySelector E sel =
     (if document_declared E then querySelector E sel else Inl ReferenceError)"

text \<open>The browser's \<open>IntersectionObserver\<close>: its callback, its options and its observation
  targets. As the Intersection Observer specification has it, \<open>observe\<close> of a target that
  is already observed does nothing, \<open>disconnect\<close> removes every target, and an observer
  that was disconnected observes again the targets passed to \<open>observe\<close> afterwards.\<close>

record intersection_observer =
  callback :: handler
  io_root :: "element option"
  io_threshold :: "rat list"
  targets :: "element list"

definition observe :: "element \<Rightarrow> intersection_observer \<Rightarrow> intersection_observer" where
  "observe e io = (if e \<in> set (targets io) then io else io\<lparr>targets := targets io @ [e]\<rparr>)"

definition disconnect :: "intersection_observer \<Rightarrow> intersection_observer" where
  "disconnect io = io\<lparr>targets := []\<rparr>"

record tracker =
  options :: observer_options
  observer :: "intersection_observer option"

subsection \<open>\<open>addElements\<close> and \<open>stop\<close>\<close>

text \<open>\<open>elements.forEach(e => this.observer.observe(e))\<close> on the items of an array-like
  argument that has \<open>forEach\<close>: \<open>observe\<close> of something that is not an element is a
  \<open>TypeError\<close>.\<close>

fun observe_each :: "item list \<Rightarrow> intersection_observer \<Rightarrow> js_error + intersection_observer" where
  "observe_each [] io = Inr io"
| "observe_each (Elem e # items) io = observe_each items (observe e io)"
| "observe_each (NotElem # items) io = Inl TypeError"

text \<open>\<open>_.map(this.options.elements)\<close>: the \<open>Array\<close> of the items of an array-like
  registry; the items of a string are its characters.\<close>

definition map_registry :: "elements_value \<Rightarrow> elements_value option" where
  "map_registry registry =
     (case registry of
        ArrayLike has_forEach has_push old \<Rightarrow> Some (ArrayLike True True old)
      | StringValue s \<Rightarrow> Some (ArrayLike True True (map (\<lambda>c. NotElem) s))
      | _ \<Rightarrow> None)"

text \<open>\<open>this.options.elements.push(e)\<close> on an array-like registry: a \<open>TypeError\<close> where
  the registry has no \<open>push\<close>; \<open>None\<close> where the registry is not array-like.\<close>

definition push_registry :: "element \<Rightarrow> elements_value \<Rightarrow> (js_error + elements_value) option" where
  "push_registry e registry =
     (case registry of
        ArrayLike has_forEach has_push old \<Rightarrow>
          Some (if has_push then Inr (ArrayLike has_forEach has_push (old @ [Elem e]))
                else Inl TypeError)
      | StringValue s \<Rightarrow> Some (Inl TypeError)
      | _ \<Rightarrow> None)"

text \<open>
  The array-like branch first: the registry becomes \<open>_.map\<close> of itself when it is
  array-like (the result of \<open>concat\<close> is dropped) and the argument otherwise; then
  \<open>elements.forEach\<close> is called, a \<open>TypeError\<close> where the argument has no \<open>forEach\<close>.
  The element branch pushes to an array-like registry or makes the registry the array
  of the element. \<open>this.observer.observe\<close> with no observer is a \<open>TypeError\<close>.
\<close>

definition array_like_branch ::
    "bool \<Rightarrow> item list \<Rightarrow> elements_value \<Rightarrow> tracker \<Rightarrow> js_error + tracker" where
  "array_like_branch has_forEach items els this =
     (let this1 =
            (case map_registry (elements (options this)) of
               Some copy \<Rightarrow> this\<lparr>options := (options this)\<lparr>elements := copy\<rparr>\<rparr>
             | None \<Rightarrow> this\<lparr>options := (options this)\<lparr>elements := els\<rparr>\<rparr>)
      in if \<not> has_forEach then Inl TypeError
         else if items = [] then Inr this1
         else (case observer this1 of
                 None \<Rightarrow> Inl TypeError
               | Some io \<Rightarrow>
                   (case observe_each items io of
                      Inl err \<Rightarrow> Inl err
                    | Inr io' \<Rightarrow> Inr (this1\<lparr>observer := Some io'\<rparr>))))"

definition addElements :: "elements_value \<Rightarrow> tracker \<Rightarrow> js_error + tracker" where
  "addElements els this =
     (case els of
        ArrayLike has_forEach has_push items \<Rightarrow> array_like_branch has_forEach items els this
      | StringValue s \<Rightarrow> array_like_branch False (map (\<lambda>c. NotElem) s) els this
      | Single e \<Rightarrow>
          (case (case push_registry e (elements (options this)) of
                   Some pushed \<Rightarrow> pushed
                 | None \<Rightarrow> Inr (Collection [e]))
           of
             Inl err \<Rightarrow> Inl err
           | Inr registry \<Rightarrow>
               (case observer this of
                  None \<Rightarrow> Inl TypeError
                | Some io \<Rightarrow>
                    Inr (this\<lparr>options := (options this)\<lparr>elements := registry\<rparr>,
                              observer := Some (observe e io)\<rparr>)))
      | NoElements \<Rightarrow> Inr this)"

definition stop :: "tracker \<Rightarrow> tracker" where
  "stop this =
     (case observer this of
        Some io \<Rightarrow> this\<lparr>observer := Some (disconnect io)\<rparr>
      | None \<Rightarrow> this)"

subsection \<open>The constructor\<close>

text \<open>The assignments to \<open>options\<close> that open the constructor. \<open>document\<close> is read only
  when \<open>options.root\<close> is falsy.\<close>

definition defaults :: "env \<Rightarrow> config \<Rightarrow> js_error + observer_options" where
  "defaults E cfg =
     (let throttle' =
            (if cfg_throttle cfg = ThrottleFalse \<or> throttle_truthy (cfg_throttle cfg)
             then cfg_throttle cfg else ThrottleMs 150);
          attribute' =
            (case cfg_attribute cfg of
               Some a \<Rightarrow> if a \<noteq> [] then a else ''data-id''
             | None \<Rightarrow> ''data-id'');
          visibleThreshold' =
            (case cfg_visibleThreshold cfg of
               Some v \<Rightarrow> if v \<noteq> 0 then v else 85 / 100
             | None \<Rightarrow> 85 / 100)
      in case (if root_truthy (cfg_root cfg) then Inr (cfg_root cfg)
               else map_sum id (map_option RootElement) (document_querySelector E ''document''))
         of
           Inl err \<Rightarrow> Inl err
         | Inr root' \<Rightarrow>
             let forceItem' = (case cfg_forceItem cfg of Some b \<Rightarrow> b | None \<Rightarrow> False)
             in Inr \<lparr>throttle = throttle', attribute = attribute',
                     visibleThreshold = visibleThreshold', root_ref = root',
                     forceItem = forceItem', elements = cfg_elements cfg\<rparr>)"

text \<open>\<open>new IntersectionObserver(callback, {root, threshold})\<close> as the constructor calls
  it: the callback is \<open>onObserve\<close>, wrapped by \<open>_.throttle\<close> when \<open>options.throttle\<close> is
  truthy; \<open>document.querySelector(null)\<close> looks for the selector \<open>null\<close>.\<close>

definition new_IntersectionObserver ::
    "env \<Rightarrow> observer_options \<Rightarrow> js_error + intersection_observer" where
  "new_IntersectionObserver E opts =
     (case (case root_ref opts of
              Some (RootElement e) \<Rightarrow> Inr (Some e)
            | Some (RootSelector sel) \<Rightarrow> document_querySelector E sel
            | None \<Rightarrow> document_querySelector E ''null'')
      of
        Inl err \<Rightarrow> Inl err
      | Inr r \<Rightarrow>
          Inr \<lparr>callback =
                 (case throttle opts of
                    ThrottleMs w \<Rightarrow> if w \<noteq> 0 then Throttled (throttle_new w) else Unwrapped
                  | _ \<Rightarrow> Unwrapped),
               io_root = r,
               io_threshold = map (\<lambda>i. of_nat i * 2 / 100) [0..<50],
               targets = []\<rparr>)"

definition Observer :: "env \<Rightarrow> config \<Rightarrow> js_error + tracker" where
  "Observer E cfg =
     (case defaults E cfg of
        Inl err \<Rightarrow> Inl err
      | Inr opts \<Rightarrow>
          (case window E of
             WindowUndeclared \<Rightarrow> Inl ReferenceError
           | WindowFalsy \<Rightarrow> Inr \<lparr>options = opts, observer = None\<rparr>
           | Window has_IntersectionObserver \<Rightarrow>
               if \<not> has_IntersectionObserver then Inr \<lparr>options = opts, observer = None\<rparr>
               else
                 (case new_IntersectionObserver E opts of
                    Inl err \<Rightarrow> Inl err
                  | Inr io \<Rightarrow>
                      let this = \<lparr>options = opts, observer = Some io\<rparr>
                      in if elements_truthy (elements opts)
                         then addElements (elements opts) this
                         else Inr this)))"

subsection \<open>Running the tracker in time\<close>

text \<open>
  What happens to a tracker: the browser delivers a batch of entries to the observer's
  callback, or the host calls \<open>addElements\<close> or \<open>stop\<close>. The browser delivers a batch
  only when it is not empty and every entry's target is observed. Timers fire when they
  are due, before anything else that happens at that time or later.
\<close>

datatype action = Deliver "entry list" | AddElements elements_value | Stop

definition pending_timer :: "tracker \<Rightarrow> int option" where
  "pending_timer this =
     (case observer this of
        None \<Rightarrow> None
      | Some io \<Rightarrow> (case callback io of Unwrapped \<Rightarrow> None | Throttled d \<Rightarrow> timerId d))"

definition fire_timer :: "int \<Rightarrow> tracker \<times> calls \<Rightarrow> tracker \<times> calls" where
  "fire_timer time = (\<lambda>(this, log).
     case observer this of
       None \<Rightarrow> (this, log)
     | Some io \<Rightarrow>
         (case callback io of
            Unwrapped \<Rightarrow> (this, log)
          | Throttled d \<Rightarrow>
              (case timerExpired (options this) time (d, log) of
                 (d', log') \<Rightarrow> (this\<lparr>observer := Some (io\<lparr>callback := Throttled d'\<rparr>)\<rparr>, log'))))"

function advance :: "int \<Rightarrow> tracker \<times> calls \<Rightarrow> tracker \<times> calls" where
  "advance t st =
     (case pending_timer (fst st) of
        None \<Rightarrow> st
      | Some due \<Rightarrow> if due \<le> t then advance t (fire_timer due st) else st)"
  by pat_completeness auto
termination
proof (relation "measure (\<lambda>(t, st). case pending_timer (fst st) of
                                         None \<Rightarrow> 0 | Some due \<Rightarrow> nat (t + 2 - due))")
  show "wf (measure (\<lambda>(t, st). case pending_timer (fst st) of
                                   None \<Rightarrow> 0 | Some due \<Rightarrow> nat (t + 2 - due)))"
    by simp
next
  fix t :: int and st :: "tracker \<times> calls" and due :: int
  assume due: "pending_timer (fst st) = Some due" and le: "due \<le> t"
  have "case pending_timer (fst (fire_timer due st)) of
          None \<Rightarrow> True | Some due' \<Rightarrow> due < due'"
    using due
    by (cases st)
       (auto simp: pending_timer_def fire_timer_def timerExpired_def trailingEdge_def
          invokeFunc_def shouldInvoke_def remainingWait_def setTimeout_def
          split: option.splits handler.splits if_splits prod.splits)
  then show "((t, fire_timer due st), (t, st))
      \<in> measure (\<lambda>(t, st). case pending_timer (fst st) of
                               None \<Rightarrow> 0 | Some due \<Rightarrow> nat (t + 2 - due))"
    using due le by (auto split: option.splits)
qed

declare advance.simps [simp del]

definition deliverable :: "intersection_observer \<Rightarrow> entry list \<Rightarrow> bool" where
  "deliverable io entries =
     (entries \<noteq> [] \<and> list_all (\<lambda>e. target e \<in> set (targets io)) entries)"

definition deliver :: "int \<Rightarrow> entry list \<Rightarrow> tracker \<times> calls \<Rightarrow> tracker \<times> calls" where
  "deliver time entries = (\<lambda>(this, log).
     case observer this of
       None \<Rightarrow> (this, log)
     | Some io \<Rightarrow>
         if \<not> deliverable io entries then (this, log)
         else
           (case callback io of
              Unwrapped \<Rightarrow> (this, log @ [(time, onObserve (options this) entries)])
            | Throttled d \<Rightarrow>
                (case debounced_call (options this) time entries (d, log) of
                   (d', log') \<Rightarrow> (this\<lparr>observer := Some (io\<lparr>callback := Throttled d'\<rparr>)\<rparr>, log'))))"

definition step :: "int \<Rightarrow> action \<Rightarrow> tracker \<times> calls \<Rightarrow> js_error + tracker \<times> calls" where
  "step time a = (\<lambda>(this, log).
     case a of
       Deliver entries \<Rightarrow> Inr (deliver time entries (this, log))
     | AddElements els \<Rightarrow>
         (case addElements els this of Inl err \<Rightarrow> Inl err | Inr this' \<Rightarrow> Inr (this', log))
     | Stop \<Rightarrow> Inr (stop this, log))"

text \<open>A timed list of actions, then the time runs on to \<open>end_time\<close>. A call of the host
  that throws ends the run with the error.\<close>

fun run :: "(int \<times> action) list \<Rightarrow> int \<Rightarrow> tracker \<times> calls \<Rightarrow> js_error + tracker \<times> calls" where
  "run [] end_time st = Inr (advance end_time st)"
| "run ((time, a) # evs) end_time st =
     (case step time a (advance time st) of
        Inl err \<Rightarrow> Inl err
      | Inr st' \<Rightarrow> run evs end_time st')"

subsection \<open>Concrete inputs\<close>

text \<open>A browser with \<open>IntersectionObserver\<close> and a page where no selector matches; the
  empty option object; elements that carry \<open>data-id\<close>; and a tracker constructed and
  then run.\<close>

definition browser :: env where
  "browser = \<lparr>document_declared = True, window = Window True, querySelector = (\<lambda>sel. Inr None)\<rparr>"

definition no_options :: config where
  "no_options =
     \<lparr>cfg_throttle = ThrottleUnset, cfg_attribute = None, cfg_visibleThreshold = None,
      cfg_root = None, cfg_forceItem = None, cfg_elements = NoElements\<rparr>"

definition default_options :: observer_options where
  "default_options =
     \<lparr>throttle = ThrottleMs 150, attribute = ''data-id'', visibleThreshold = 85 / 100,
      root_ref = None, forceItem = False, elements = NoElements\<rparr>"

definition elem :: "nat \<Rightarrow> string \<Rightarrow> element" where
  "elem n ident = \<lparr>node = n, attributes = [(''data-id'', ident)]\<rparr>"

definition sample :: "element \<Rightarrow> rat \<Rightarrow> rat \<Rightarrow> entry" where
  "sample e ratio y = \<lparr>target = e, intersectionRatio = ratio, boundingClientRect_y = y\<rparr>"

definition run_new ::
    "env \<Rightarrow> config \<Rightarrow> (int \<times> action) list \<Rightarrow> int \<Rightarrow> js_error + tracker \<times> calls" where
  "run_new E cfg evs end_time =
     (case Observer E cfg of Inl err \<Rightarrow> Inl err | Inr this \<Rightarrow> run evs end_time (this, []))"

text \<open>The order the specification states for the ranking: a larger ratio first, and
  among equal ratios the smaller \<open>y\<close> first.\<close>

definition ranks_before :: "entry \<Rightarrow> entry \<Rightarrow> bool" where
  "ranks_before a b \<longleftrightarrow>
     intersectionRatio a > intersectionRatio b \<or>
     (intersectionRatio a = intersectionRatio b \<and>
      boundingClientRect_y a \<le> boundingClientRect_y b)"

subsection \<open>Notions for the proofs about time\<close>

text \<open>The targets the observer of a tracker observes.\<close>

definition observed :: "tracker \<Rightarrow> element list" where
  "observed this = (case observer this of None \<Rightarrow> [] | Some io \<Rightarrow> targets io)"

text \<open>
  The flush that is pending in a tracker: the throttle wrapper has a timer and holds a
  batch (\<open>lastArgs\<close>). When no further batch arrives, the timer calls \<open>onObserve\<close> with
  that batch when it is due, or, where \<open>shouldInvoke\<close> is false then, at the time to
  which \<open>timerExpired\<close> sets the timer again. A timer with no batch held flushes nothing.
\<close>

definition flush_time :: "debounced \<Rightarrow> int \<Rightarrow> int" where
  "flush_time d due =
     (if shouldInvoke d due then due else due + max 0 (remainingWait d due))"

definition pending_flush :: "tracker \<Rightarrow> (int \<times> entry list) option" where
  "pending_flush this =
     (case observer this of
        None \<Rightarrow> None
      | Some io \<Rightarrow>
          (case callback io of
             Unwrapped \<Rightarrow> None
           | Throttled d \<Rightarrow>
               (case timerId d of
                  None \<Rightarrow> None
                | Some due \<Rightarrow>
                    (case lastArgs d of
                       None \<Rightarrow> None
                     | Some args \<Rightarrow> Some (flush_time d due, args)))))"

text \<open>The latest time a run reaches: the times of its actions and its end.\<close>

fun horizon :: "(int \<times> action) list \<Rightarrow> int \<Rightarrow> int" where
  "horizon [] end_time = end_time"
| "horizon ((time, a) # evs) end_time = max time (horizon evs end_time)"

text \<open>The registries on which the element branch of \<open>addElements\<close> does not throw: those
  that are not array-like and those that have \<open>push\<close>.\<close>

definition pushable :: "elements_value \<Rightarrow> bool" where
  "pushable registry =
     (case registry of
        ArrayLike has_forEach has_push old \<Rightarrow> has_push
      | StringValue s \<Rightarrow> False
      | _ \<Rightarrow> True)"

text \<open>Calls are spaced by \<open>w\<close> when any three consecutive calls span at least \<open>w\<close>.\<close>

definition spaced :: "int \<Rightarrow> calls \<Rightarrow> bool" where
  "spaced w cs \<longleftrightarrow> (\<forall>i. i + 2 < length cs \<longrightarrow> fst (cs ! i) + w \<le> fst (cs ! (i + 2)))"

text \<open>
  The invariant of the throttle wrapper with interval \<open>w\<close>, at a time \<open>now\<close> that no call
  so far exceeds: the calls made are in time order and spaced; the last call was made at
  \<open>lastInvokeTime\<close>; it came \<open>w\<close> after the call before it, unless it was made on the
  leading edge, and then no batch has come before it since; and a pending timer is due
  \<open>w\<close> after the last call or later.
\<close>

definition throttle_inv :: "int \<Rightarrow> int \<Rightarrow> debounced \<times> calls \<Rightarrow> bool" where
  "throttle_inv w now = (\<lambda>(d, cs).
     wait d = w \<and> sorted (map fst cs) \<and> spaced w cs \<and>
     (case lastCallTime d of
        None \<Rightarrow> timerId d = None \<and> cs = []
      | Some lct \<Rightarrow>
          lct \<le> now \<and> lastInvokeTime d \<le> now \<and> cs \<noteq> [] \<and>
          fst (last cs) = lastInvokeTime d \<and>
          (2 \<le> length cs \<longrightarrow>
             fst (cs ! (length cs - 2)) + w \<le> lastInvokeTime d \<or> lastInvokeTime d \<le> lct)) \<and>
     (\<forall>due. timerId d = Some due \<longrightarrow> lastInvokeTime d + w \<le> due))"

definition tracker_inv :: "int \<Rightarrow> int \<Rightarrow> tracker \<times> calls \<Rightarrow> bool" where
  "tracker_inv w now = (\<lambda>(this, cs).
     \<exists>io d. observer this = Some io \<and> callback io = Throttled d \<and> throttle_inv w now (d, cs))"

subsection \<open>More concrete inputs\<close>

text \<open>A tracker throttled with 150 ms that observes one element, and the five batches
  delivered at 0, 10, 20, 30 and 140 ms.\<close>

definition throttled_config :: config where
  "throttled_config =
     no_options\<lparr>cfg_throttle := ThrottleMs 150, cfg_elements := Single (elem 0 ''a'')\<rparr>"

definition five_batches :: "(int \<times> action) list" where
  "five_batches =
     [(0, Deliver [sample (elem 0 ''a'') (10 / 100) 0]),
      (10, Deliver [sample (elem 0 ''a'') (20 / 100) 0]),
      (20, Deliver [sample (elem 0 ''a'') (30 / 100) 0]),
      (30, Deliver [sample (elem 0 ''a'') (40 / 100) 0]),
      (140, Deliver [sample (elem 0 ''a'') (90 / 100) 0])]"

section \<open>Ranking: the entry reported in view\<close>

subsection \<open>The order of \<open>orderBy\<close>\<close>

lemma compareMultiple_le_iff:
  "compareMultiple a b \<le> 0 \<longleftrightarrow>
     intersectionRatio (snd a) > intersectionRatio (snd b) \<or>
     (intersectionRatio (snd a) = intersectionRatio (snd b) \<and>
        (boundingClientRect_y (snd a) < boundingClientRect_y (snd b) \<or>
         (boundingClientRect_y (snd a) = boundingClientRect_y (snd b) \<and> fst a \<le> fst b)))"
  by (auto simp: compareMultiple_def compareAscending_def Let_def)

lemma compareMultiple_total: "\<not> compareMultiple a b < 0 \<Longrightarrow> compareMultiple b a \<le> 0"
  by (auto simp: compareMultiple_def compareAscending_def Let_def split: if_splits)

lemma compareMultiple_trans:
  "compareMultiple a b \<le> 0 \<Longrightarrow> compareMultiple b c \<le> 0 \<Longrightarrow> compareMultiple a c \<le> 0"
  unfolding compareMultiple_le_iff by auto

lemma mset_baseSortBy_insert: "mset (baseSortBy_insert x ys) = add_mset x (mset ys)"
  by (induction ys) auto

lemma set_baseSortBy_insert: "set (baseSortBy_insert x ys) = insert x (set ys)"
  by (induction ys) auto

lemma mset_baseSortBy: "mset (baseSortBy xs) = mset xs"
  by (induction xs) (auto simp: baseSortBy_def mset_baseSortBy_insert)

lemma sorted_baseSortBy_insert:
  "sorted_wrt (\<lambda>a b. compareMultiple a b \<le> 0) ys \<Longrightarrow>
   sorted_wrt (\<lambda>a b. compareMultiple a b \<le> 0) (baseSortBy_insert x ys)"
proof (induction ys)
  case Nil
  then show ?case by simp
next
  case (Cons y ys)
  show ?case
  proof (cases "compareMultiple x y < 0")
    case True
    then have "\<forall>z\<in>set ys. compareMultiple x z \<le> 0"
      using Cons.prems compareMultiple_trans [of x y] by auto
    with True Cons.prems show ?thesis by simp
  next
    case False
    then have "compareMultiple y x \<le> 0" by (rule compareMultiple_total)
    with False Cons show ?thesis by (auto simp: set_baseSortBy_insert)
  qed
qed

lemma sorted_baseSortBy: "sorted_wrt (\<lambda>a b. compareMultiple a b \<le> 0) (baseSortBy xs)"
  by (induction xs) (auto simp: baseSortBy_def sorted_baseSortBy_insert)

lemma mset_orderBy: "mset (orderBy entries) = mset entries"
proof -
  have "mset (orderBy entries) = image_mset snd (mset (enumerate 0 entries))"
    by (simp add: orderBy_def mset_baseSortBy)
  also have "\<dots> = mset (map snd (enumerate 0 entries))"
    by (simp only: mset_map)
  also have "\<dots> = mset entries"
    by (simp only: map_snd_enumerate)
  finally show ?thesis .
qed

lemma sorted_orderBy: "sorted_wrt ranks_before (orderBy entries)"
proof -
  have "sorted_wrt (\<lambda>a b. ranks_before (snd a) (snd b)) (baseSortBy (enumerate 0 entries))"
    by (rule sorted_wrt_mono_rel [OF _ sorted_baseSortBy])
       (auto simp: compareMultiple_le_iff ranks_before_def)
  then show ?thesis by (simp add: orderBy_def sorted_wrt_map)
qed

lemma orderBy_Nil_iff: "orderBy entries = [] \<longleftrightarrow> entries = []"
  using mset_orderBy [of entries] by (metis mset_zero_iff)


lemma set_orderBy: "set (orderBy entries) = set entries"
  using mset_orderBy [of entries] by (metis set_mset_mset)

lemma ranks_before_refl: "ranks_before a a"
  by (simp add: ranks_before_def)

lemma hd_orderBy_ranks_first:
  assumes "e \<in> set entries"
  shows "ranks_before (hd (orderBy entries)) e"
proof -
  from assms have ne: "entries \<noteq> []" by auto
  then obtain x xs where xs: "orderBy entries = x # xs"
    using orderBy_Nil_iff [of entries] by (cases "orderBy entries") auto
  have "sorted_wrt ranks_before (x # xs)"
    using sorted_orderBy [of entries] xs by simp
  then have "\<forall>y\<in>set xs. ranks_before x y" by simp
  moreover have "e \<in> set (x # xs)"
    using assms set_orderBy [of entries] xs by simp
  ultimately show ?thesis
    using xs ranks_before_refl by auto
qed

lemma onObserve_eq:
  assumes "entries \<noteq> []"
  shows "onObserve opts entries =
     Inr (Call
       (if visibleThreshold opts \<le> intersectionRatio (hd (orderBy entries)) \<or> forceItem opts
        then getAttribute (target (hd (orderBy entries))) (attribute opts) else JUndefined)
       (if visibleThreshold opts \<le> intersectionRatio (hd (orderBy entries)) \<or> forceItem opts
        then Some \<lparr>entry_of = hd (orderBy entries), inView = True\<rparr> else None)
       (\<lparr>entry_of = hd (orderBy entries),
          inView = (visibleThreshold opts \<le> intersectionRatio (hd (orderBy entries)) \<or> forceItem opts)\<rparr>
        # map (\<lambda>e. \<lparr>entry_of = e, inView = False\<rparr>) (tl (orderBy entries))))"
proof -
  obtain x xs where xs: "orderBy entries = x # xs"
    using assms orderBy_Nil_iff [of entries] by (cases "orderBy entries") auto
  show ?thesis
    by (simp add: onObserve_def xs Let_def)
qed

text \<open>
  Claim C1. For every non-empty batch, \<open>onObserve\<close> calls the option callback once with
  the sorted batch: a permutation of the batch, ordered by ratio descending and, among
  equal ratios, by \<open>y\<close> ascending. The entry it reports in view, when it reports one, is
  the first of that list: an entry of the batch that no entry of the batch beats in
  ratio, and among those of the same ratio one of least \<open>y\<close>. For the ratios
  0.9, 0.95, 0.3 with \<open>y\<close> 10, 20, 5 the sorted list is the second, the first, the third
  entry, and with the default options the second entry is reported in view.
\<close>

theorem onObserve_ranking:
  assumes "entries \<noteq> []"
  shows "(\<exists>ident active ranked.
            onObserve opts entries = Inr (Call ident active ranked) \<and>
            map entry_of ranked = orderBy entries \<and>
            mset (map entry_of ranked) = mset entries \<and>
            sorted_wrt ranks_before (map entry_of ranked) \<and>
            (\<forall>s. active = Some s \<longrightarrow>
                 s = hd ranked \<and> entry_of s \<in> set entries \<and>
                 (\<forall>e\<in>set entries. ranks_before (entry_of s) e))) \<and>
         orderBy [sample a (90 / 100) 10, sample b (95 / 100) 20, sample c (30 / 100) 5] =
           [sample b (95 / 100) 20, sample a (90 / 100) 10, sample c (30 / 100) 5] \<and>
         onObserve default_options
             [sample a (90 / 100) 10, sample b (95 / 100) 20, sample c (30 / 100) 5] =
           Inr (Call (getAttribute b ''data-id'')
                  (Some \<lparr>entry_of = sample b (95 / 100) 20, inView = True\<rparr>)
                  [\<lparr>entry_of = sample b (95 / 100) 20, inView = True\<rparr>,
                   \<lparr>entry_of = sample a (90 / 100) 10, inView = False\<rparr>,
                   \<lparr>entry_of = sample c (30 / 100) 5, inView = False\<rparr>])"
proof (intro conjI)
  have hd_in: "hd (orderBy entries) \<in> set entries"
    using assms set_orderBy [of entries] orderBy_Nil_iff [of entries]
    by (metis hd_in_set)
  have map_eq: "hd (orderBy entries) # tl (orderBy entries) = orderBy entries"
    using assms by (simp add: orderBy_Nil_iff)
  show "\<exists>ident active ranked.
            onObserve opts entries = Inr (Call ident active ranked) \<and>
            map entry_of ranked = orderBy entries \<and>
            mset (map entry_of ranked) = mset entries \<and>
            sorted_wrt ranks_before (map entry_of ranked) \<and>
            (\<forall>s. active = Some s \<longrightarrow>
                 s = hd ranked \<and> entry_of s \<in> set entries \<and>
                 (\<forall>e\<in>set entries. ranks_before (entry_of s) e))"
    unfolding onObserve_eq [OF assms]
    apply (intro exI conjI)
        apply (rule refl)
       apply (simp add: o_def map_eq)
      apply (simp only: list.map marked.simps map_map o_def map_ident map_eq mset_orderBy)
     apply (simp only: list.map marked.simps map_map o_def map_ident map_eq sorted_orderBy)
    using hd_in hd_orderBy_ranks_first by (auto split: if_splits)
next
  show ord: "orderBy [sample a (90 / 100) 10, sample b (95 / 100) 20, sample c (30 / 100) 5] =
           [sample b (95 / 100) 20, sample a (90 / 100) 10, sample c (30 / 100) 5]"
    by (simp add: orderBy_def baseSortBy_def compareMultiple_def compareAscending_def sample_def)
  show "onObserve default_options
             [sample a (90 / 100) 10, sample b (95 / 100) 20, sample c (30 / 100) 5] =
           Inr (Call (getAttribute b ''data-id'')
                  (Some \<lparr>entry_of = sample b (95 / 100) 20, inView = True\<rparr>)
                  [\<lparr>entry_of = sample b (95 / 100) 20, inView = True\<rparr>,
                   \<lparr>entry_of = sample a (90 / 100) 10, inView = False\<rparr>,
                   \<lparr>entry_of = sample c (30 / 100) 5, inView = False\<rparr>])"
    unfolding onObserve_def ord by (simp add: default_options_def sample_def Let_def)
qed

theorem onObserve_ranking_witness:
  "[sample (elem 0 ''a'') (90 / 100) 10, sample (elem 1 ''b'') (95 / 100) 20,
    sample (elem 2 ''c'') (30 / 100) 5] \<noteq> [] \<and>
   (\<exists>ident active ranked.
      onObserve default_options
        [sample (elem 0 ''a'') (90 / 100) 10, sample (elem 1 ''b'') (95 / 100) 20,
         sample (elem 2 ''c'') (30 / 100) 5] = Inr (Call ident active ranked) \<and>
      mset (map entry_of ranked) =
        mset [sample (elem 0 ''a'') (90 / 100) 10, sample (elem 1 ''b'') (95 / 100) 20,
              sample (elem 2 ''c'') (30 / 100) 5] \<and>
      sorted_wrt ranks_before (map entry_of ranked) \<and>
      active = Some (hd ranked) \<and>
      ranks_before (entry_of (hd ranked)) (sample (elem 0 ''a'') (90 / 100) 10) \<and>
      ranks_before (entry_of (hd ranked)) (sample (elem 2 ''c'') (30 / 100) 5))"
proof -
  let ?batch = "[sample (elem 0 ''a'') (90 / 100) 10, sample (elem 1 ''b'') (95 / 100) 20,
                 sample (elem 2 ''c'') (30 / 100) 5]"
  have ne: "?batch \<noteq> []" by simp
  from onObserve_ranking [OF ne, of default_options "elem 0 ''a''" "elem 1 ''b''" "elem 2 ''c''"]
  obtain ident active ranked where
    call: "onObserve default_options ?batch = Inr (Call ident active ranked)" and
    perm: "mset (map entry_of ranked) = mset ?batch" and
    srt: "sorted_wrt ranks_before (map entry_of ranked)" and
    act: "\<forall>s. active = Some s \<longrightarrow>
            s = hd ranked \<and> entry_of s \<in> set ?batch \<and>
            (\<forall>e\<in>set ?batch. ranks_before (entry_of s) e)" and
    conc: "onObserve default_options ?batch =
             Inr (Call (getAttribute (elem 1 ''b'') ''data-id'')
                    (Some \<lparr>entry_of = sample (elem 1 ''b'') (95 / 100) 20, inView = True\<rparr>)
                    [\<lparr>entry_of = sample (elem 1 ''b'') (95 / 100) 20, inView = True\<rparr>,
                     \<lparr>entry_of = sample (elem 0 ''a'') (90 / 100) 10, inView = False\<rparr>,
                     \<lparr>entry_of = sample (elem 2 ''c'') (30 / 100) 5, inView = False\<rparr>])"
    by blast
  define s where "s = \<lparr>entry_of = sample (elem 1 ''b'') (95 / 100) 20, inView = True\<rparr>"
  from call conc have a: "active = Some s"
    by (simp add: s_def)
  with act have hd: "s = hd ranked" and rb: "\<forall>e\<in>set ?batch. ranks_before (entry_of s) e"
    by blast+
  from a rb have "active = Some (hd ranked)"
    and "ranks_before (entry_of (hd ranked)) (sample (elem 0 ''a'') (90 / 100) 10)"
    and "ranks_before (entry_of (hd ranked)) (sample (elem 2 ''c'') (30 / 100) 5)"
    unfolding hd by simp_all
  with ne call perm srt show ?thesis
    by (intro conjI exI [of _ ident] exI [of _ active] exI [of _ ranked])
qed

section \<open>The threshold gate\<close>

lemma getAttribute_defined: "getAttribute e name \<noteq> JUndefined"
  by (simp add: getAttribute_def split: option.splits)

text \<open>
  Claim C2. For every non-empty batch the first entry of the sorted list is marked in
  view exactly when its ratio is at least \<open>visibleThreshold\<close> or \<open>forceItem\<close> is set, and
  the identifier passed is that entry's attribute when it is in view and \<open>undefined\<close>
  otherwise (the attribute itself is never \<open>undefined\<close>). With the threshold 0.85 and
  \<open>forceItem\<close> off, a top ratio of 0.80 gives \<open>undefined\<close> and 0.85 or 0.90 gives the top
  entry's attribute; with \<open>forceItem\<close> on, a top ratio of 0.10 gives the top entry's
  attribute.
\<close>

theorem onObserve_threshold_gate:
  assumes "entries \<noteq> []"
  shows "(\<exists>ident active ranked.
            onObserve opts entries = Inr (Call ident active ranked) \<and>
            entry_of (hd ranked) = hd (orderBy entries) \<and>
            (inView (hd ranked) \<longleftrightarrow>
               visibleThreshold opts \<le> intersectionRatio (hd (orderBy entries))
               \<or> forceItem opts) \<and>
            ident = (if inView (hd ranked)
                     then getAttribute (target (hd (orderBy entries))) (attribute opts)
                     else JUndefined) \<and>
            (ident = JUndefined \<longleftrightarrow> \<not> inView (hd ranked))) \<and>
         onObserve default_options [sample a (5 / 100) y, sample b (80 / 100) y'] =
           Inr (Call JUndefined None
                  [\<lparr>entry_of = sample b (80 / 100) y', inView = False\<rparr>,
                   \<lparr>entry_of = sample a (5 / 100) y, inView = False\<rparr>]) \<and>
         onObserve default_options [sample a (5 / 100) y, sample b (85 / 100) y'] =
           Inr (Call (getAttribute b ''data-id'')
                  (Some \<lparr>entry_of = sample b (85 / 100) y', inView = True\<rparr>)
                  [\<lparr>entry_of = sample b (85 / 100) y', inView = True\<rparr>,
                   \<lparr>entry_of = sample a (5 / 100) y, inView = False\<rparr>]) \<and>
         onObserve default_options [sample a (5 / 100) y, sample b (90 / 100) y'] =
           Inr (Call (getAttribute b ''data-id'')
                  (Some \<lparr>entry_of = sample b (90 / 100) y', inView = True\<rparr>)
                  [\<lparr>entry_of = sample b (90 / 100) y', inView = True\<rparr>,
                   \<lparr>entry_of = sample a (5 / 100) y, inView = False\<rparr>]) \<and>
         onObserve (default_options\<lparr>forceItem := True\<rparr>)
             [sample a (5 / 100) y, sample b (10 / 100) y'] =
           Inr (Call (getAttribute b ''data-id'')
                  (Some \<lparr>entry_of = sample b (10 / 100) y', inView = True\<rparr>)
                  [\<lparr>entry_of = sample b (10 / 100) y', inView = True\<rparr>,
                   \<lparr>entry_of = sample a (5 / 100) y, inView = False\<rparr>])"
proof -
  have general: "\<exists>ident active ranked.
            onObserve opts entries = Inr (Call ident active ranked) \<and>
            entry_of (hd ranked) = hd (orderBy entries) \<and>
            (inView (hd ranked) \<longleftrightarrow>
               visibleThreshold opts \<le> intersectionRatio (hd (orderBy entries))
               \<or> forceItem opts) \<and>
            ident = (if inView (hd ranked)
                     then getAttribute (target (hd (orderBy entries))) (attribute opts)
                     else JUndefined) \<and>
            (ident = JUndefined \<longleftrightarrow> \<not> inView (hd ranked))"
    unfolding onObserve_eq [OF assms]
    by (intro exI conjI, rule refl) (simp_all add: getAttribute_defined)
  have two: "orderBy [sample a (5 / 100) y, sample b r y'] = [sample b r y', sample a (5 / 100) y]"
    if "5 / 100 < r" for r
    using that
    by (simp add: orderBy_def baseSortBy_def compareMultiple_def compareAscending_def sample_def)
  have c80: "onObserve default_options [sample a (5 / 100) y, sample b (80 / 100) y'] =
           Inr (Call JUndefined None
                  [\<lparr>entry_of = sample b (80 / 100) y', inView = False\<rparr>,
                   \<lparr>entry_of = sample a (5 / 100) y, inView = False\<rparr>])"
    unfolding onObserve_def by (subst two) (simp_all add: default_options_def sample_def Let_def)
  have c85: "onObserve default_options [sample a (5 / 100) y, sample b (85 / 100) y'] =
           Inr (Call (getAttribute b ''data-id'')
                  (Some \<lparr>entry_of = sample b (85 / 100) y', inView = True\<rparr>)
                  [\<lparr>entry_of = sample b (85 / 100) y', inView = True\<rparr>,
                   \<lparr>entry_of = sample a (5 / 100) y, inView = False\<rparr>])"
    unfolding onObserve_def by (subst two) (simp_all add: default_options_def sample_def Let_def)
  have c90: "onObserve default_options [sample a (5 / 100) y, sample b (90 / 100) y'] =
           Inr (Call (getAttribute b ''data-id'')
                  (Some \<lparr>entry_of = sample b (90 / 100) y', inView = True\<rparr>)
                  [\<lparr>entry_of = sample b (90 / 100) y', inView = True\<rparr>,
                   \<lparr>entry_of = sample a (5 / 100) y, inView = False\<rparr>])"
    unfolding onObserve_def by (subst two) (simp_all add: default_options_def sample_def Let_def)
  have c10: "onObserve (default_options\<lparr>forceItem := True\<rparr>)
             [sample a (5 / 100) y, sample b (10 / 100) y'] =
           Inr (Call (getAttribute b ''data-id'')
                  (Some \<lparr>entry_of = sample b (10 / 100) y', inView = True\<rparr>)
                  [\<lparr>entry_of = sample b (10 / 100) y', inView = True\<rparr>,
                   \<lparr>entry_of = sample a (5 / 100) y, inView = False\<rparr>])"
    unfolding onObserve_def by (subst two) (simp_all add: default_options_def sample_def Let_def)
  from general c80 c85 c90 c10 show ?thesis by (intro conjI)
qed

theorem onObserve_threshold_gate_witness:
  "[sample (elem 0 ''a'') (5 / 100) 0, sample (elem 1 ''b'') (80 / 100) 40] \<noteq> [] \<and>
   (\<exists>active ranked.
      onObserve default_options
        [sample (elem 0 ''a'') (5 / 100) 0, sample (elem 1 ''b'') (80 / 100) 40] =
        Inr (Call JUndefined active ranked) \<and>
      \<not> inView (hd ranked) \<and>
      \<not> (visibleThreshold default_options
           \<le> intersectionRatio
                (hd (orderBy [sample (elem 0 ''a'') (5 / 100) 0,
                              sample (elem 1 ''b'') (80 / 100) 40]))))"
proof -
  let ?batch = "[sample (elem 0 ''a'') (5 / 100) 0, sample (elem 1 ''b'') (80 / 100) 40]"
  have ne: "?batch \<noteq> []" by simp
  from onObserve_threshold_gate [OF ne, of default_options "elem 0 ''a''" 0 "elem 1 ''b''" 40]
  obtain ident active ranked where
    call: "onObserve default_options ?batch = Inr (Call ident active ranked)" and
    iff: "inView (hd ranked) \<longleftrightarrow>
            visibleThreshold default_options \<le> intersectionRatio (hd (orderBy ?batch))
            \<or> forceItem default_options" and
    und: "ident = JUndefined \<longleftrightarrow> \<not> inView (hd ranked)" and
    conc: "onObserve default_options ?batch =
             Inr (Call JUndefined None
                    [\<lparr>entry_of = sample (elem 1 ''b'') (80 / 100) 40, inView = False\<rparr>,
                     \<lparr>entry_of = sample (elem 0 ''a'') (5 / 100) 0, inView = False\<rparr>])"
    by blast
  from call conc have "ident = JUndefined" by simp
  with und have nv: "\<not> inView (hd ranked)" by simp
  with iff have "\<not> (visibleThreshold default_options \<le> intersectionRatio (hd (orderBy ?batch)))"
    by simp
  with ne call nv \<open>ident = JUndefined\<close> show ?thesis by blast
qed

text \<open>
  Claim C7. For every non-empty batch at most one entry of the list passed to the
  callback is in view, and it can only be the first: the entries after the first are
  never marked. When the first is not in view the callback gets \<open>undefined\<close> for the
  identifier and for the entry, and still the whole sorted batch.
\<close>

theorem onObserve_at_most_one_active:
  assumes "entries \<noteq> []"
  shows "\<exists>ident active ranked.
           onObserve opts entries = Inr (Call ident active ranked) \<and>
           map entry_of ranked = orderBy entries \<and>
           mset (map entry_of ranked) = mset entries \<and>
           length ranked = length entries \<and>
           list_all (\<lambda>m. \<not> inView m) (tl ranked) \<and>
           length (filter inView ranked) \<le> 1 \<and>
           (inView (hd ranked) \<longleftrightarrow>
              visibleThreshold opts \<le> intersectionRatio (hd (orderBy entries))
              \<or> forceItem opts) \<and>
           (if inView (hd ranked)
            then active = Some (hd ranked) \<and>
                 ident = getAttribute (target (entry_of (hd ranked))) (attribute opts)
            else active = None \<and> ident = JUndefined)"
proof -
  have map_eq: "hd (orderBy entries) # tl (orderBy entries) = orderBy entries"
    using assms by (simp add: orderBy_Nil_iff)
  have len: "length (orderBy entries) = length entries"
    using mset_orderBy [of entries] by (metis size_mset)
  have len': "Suc (length (orderBy entries) - Suc 0) = length entries"
    using len assms by (cases entries) simp_all
  have none: "filter inView (map (\<lambda>e. \<lparr>entry_of = e, inView = False\<rparr>) xs) = []" for xs
    by (induction xs) auto
  show ?thesis
    unfolding onObserve_eq [OF assms]
    apply (intro exI conjI)
           apply (rule refl)
          apply (simp add: o_def map_eq)
         apply (simp only: list.map marked.simps map_map o_def map_ident map_eq mset_orderBy)
        apply (simp add: len')
       apply (simp add: list_all_iff)
      apply (simp add: none)
     apply simp
    apply simp
    done
qed

theorem onObserve_at_most_one_active_witness:
  "[sample (elem 0 ''a'') (5 / 100) 0, sample (elem 1 ''b'') (80 / 100) 40] \<noteq> [] \<and>
   (\<exists>ranked.
      onObserve default_options
        [sample (elem 0 ''a'') (5 / 100) 0, sample (elem 1 ''b'') (80 / 100) 40] =
        Inr (Call JUndefined None ranked) \<and>
      length ranked = 2 \<and> length (filter inView ranked) \<le> 1 \<and>
      mset (map entry_of ranked) =
        mset [sample (elem 0 ''a'') (5 / 100) 0, sample (elem 1 ''b'') (80 / 100) 40])"
proof -
  let ?batch = "[sample (elem 0 ''a'') (5 / 100) 0, sample (elem 1 ''b'') (80 / 100) 40]"
  have ne: "?batch \<noteq> []" by simp
  have hd: "hd (orderBy ?batch) = sample (elem 1 ''b'') (80 / 100) 40"
    by (simp add: orderBy_def baseSortBy_def compareMultiple_def compareAscending_def sample_def)
  from onObserve_at_most_one_active [OF ne, of default_options]
  obtain ident active ranked where
    call: "onObserve default_options ?batch = Inr (Call ident active ranked)" and
    perm: "mset (map entry_of ranked) = mset ?batch" and
    len: "length ranked = length ?batch" and
    one: "length (filter inView ranked) \<le> 1" and
    iff: "inView (hd ranked) \<longleftrightarrow>
            visibleThreshold default_options \<le> intersectionRatio (hd (orderBy ?batch))
            \<or> forceItem default_options" and
    res: "if inView (hd ranked)
          then active = Some (hd ranked) \<and>
               ident = getAttribute (target (entry_of (hd ranked))) (attribute default_options)
          else active = None \<and> ident = JUndefined"
    by blast
  from iff have "\<not> inView (hd ranked)"
    unfolding hd by (simp add: default_options_def sample_def)
  with res have "active = None" "ident = JUndefined" by simp_all
  with ne call perm len one show ?thesis by auto
qed

section \<open>The constructor's defaults\<close>

lemma callback_observe: "callback (observe e io) = callback io"
  by (simp add: observe_def)

lemma callback_observe_each: "observe_each items io = Inr io' \<Longrightarrow> callback io' = callback io"
  by (induction items io rule: observe_each.induct) (auto simp: callback_observe)

lemma array_like_branch_options:
  "array_like_branch has_forEach items els this = Inr this' \<Longrightarrow>
     throttle (options this') = throttle (options this) \<and>
     attribute (options this') = attribute (options this) \<and>
     visibleThreshold (options this') = visibleThreshold (options this) \<and>
     forceItem (options this') = forceItem (options this)"
  by (auto simp: array_like_branch_def Let_def
      split: if_splits option.splits sum.splits)

lemma addElements_options:
  "addElements els this = Inr this' \<Longrightarrow>
     throttle (options this') = throttle (options this) \<and>
     attribute (options this') = attribute (options this) \<and>
     visibleThreshold (options this') = visibleThreshold (options this) \<and>
     forceItem (options this') = forceItem (options this)"
  by (cases els)
     (auto simp: addElements_def dest: array_like_branch_options
      split: option.splits sum.splits)

lemma array_like_branch_callback:
  assumes "array_like_branch has_forEach items els this = Inr this'" "observer this = Some io"
  shows "\<exists>io'. observer this' = Some io' \<and> callback io' = callback io"
  using assms
  by (auto simp: array_like_branch_def Let_def dest: callback_observe_each
      split: if_splits option.splits sum.splits)

lemma addElements_callback:
  assumes "addElements els this = Inr this'" "observer this = Some io"
  shows "\<exists>io'. observer this' = Some io' \<and> callback io' = callback io"
  using assms
  by (cases els)
     (auto simp: addElements_def callback_observe dest: array_like_branch_callback
      split: option.splits sum.splits)

lemma defaults_fields:
  assumes "defaults E cfg = Inr opts"
  shows "throttle opts =
           (if cfg_throttle cfg = ThrottleFalse \<or> throttle_truthy (cfg_throttle cfg)
            then cfg_throttle cfg else ThrottleMs 150)"
    and "visibleThreshold opts =
           (case cfg_visibleThreshold cfg of
              Some v \<Rightarrow> if v \<noteq> 0 then v else 85 / 100 | None \<Rightarrow> 85 / 100)"
    and "forceItem opts = (case cfg_forceItem cfg of Some b \<Rightarrow> b | None \<Rightarrow> False)"
    and "attribute opts =
           (case cfg_attribute cfg of
              Some a \<Rightarrow> if a \<noteq> [] then a else ''data-id'' | None \<Rightarrow> ''data-id'')"
  using assms unfolding defaults_def Let_def
  by (auto split: sum.splits if_splits)

lemma new_IntersectionObserver_fields:
  assumes "new_IntersectionObserver E opts = Inr io"
  shows "callback io =
           (case throttle opts of
              ThrottleMs w \<Rightarrow> if w \<noteq> 0 then Throttled (throttle_new w) else Unwrapped
            | _ \<Rightarrow> Unwrapped)"
    and "targets io = []"
  using assms unfolding new_IntersectionObserver_def
  by (auto split: sum.splits)

lemma Observer_Inr:
  assumes "Observer E cfg = Inr this"
  obtains opts where "defaults E cfg = Inr opts"
    and "throttle (options this) = throttle opts"
    and "visibleThreshold (options this) = visibleThreshold opts"
    and "forceItem (options this) = forceItem opts"
    and "attribute (options this) = attribute opts"
    and "\<And>io. observer this = Some io \<Longrightarrow>
           callback io =
             (case throttle opts of
                ThrottleMs w \<Rightarrow> if w \<noteq> 0 then Throttled (throttle_new w) else Unwrapped
              | _ \<Rightarrow> Unwrapped)"
proof -
  from assms obtain opts where d: "defaults E cfg = Inr opts"
    unfolding Observer_def by (cases "defaults E cfg") auto
  show thesis
  proof (cases "window E")
    case WindowUndeclared
    with assms d show ?thesis unfolding Observer_def by simp
  next
    case WindowFalsy
    with assms d have "this = \<lparr>options = opts, observer = None\<rparr>"
      unfolding Observer_def by simp
    with d that show ?thesis by simp
  next
    case (Window has_io)
    show ?thesis
    proof (cases has_io)
      case False
      with assms d Window have "this = \<lparr>options = opts, observer = None\<rparr>"
        unfolding Observer_def by simp
      with d that show ?thesis by simp
    next
      case True
      with assms d Window obtain io where
        io: "new_IntersectionObserver E opts = Inr io" and
        res: "(if elements_truthy (elements opts)
                then addElements (elements opts) \<lparr>options = opts, observer = Some io\<rparr>
                else Inr \<lparr>options = opts, observer = Some io\<rparr>) = Inr this"
        unfolding Observer_def Let_def
        by (cases "new_IntersectionObserver E opts") auto
      note cb = new_IntersectionObserver_fields(1) [OF io]
      show ?thesis
      proof (cases "elements_truthy (elements opts)")
        case False
        with res have "this = \<lparr>options = opts, observer = Some io\<rparr>" by simp
        with d cb that show ?thesis by simp
      next
        case True
        with res have add: "addElements (elements opts) \<lparr>options = opts, observer = Some io\<rparr> = Inr this"
          by simp
        from addElements_options [OF add] addElements_callback [OF add, of io] d cb that
        show ?thesis by auto
      qed
    qed
  qed
qed

text \<open>
  Claim C10. The constructor replaces every falsy \<open>visibleThreshold\<close> by 0.85: no tracker
  has the threshold 0, and a tracker configured with 0 has the threshold 0.85, so that
  (unless \<open>forceItem\<close> is set) a lone entry of ratio 0.5 is not reported in view.
\<close>

theorem visibleThreshold_zero_not_honored:
  assumes "Observer E cfg = Inr this"
  shows "visibleThreshold (options this) \<noteq> 0 \<and>
         (cfg_visibleThreshold cfg = Some 0 \<longrightarrow>
            visibleThreshold (options this) = 85 / 100 \<and>
            (cfg_forceItem cfg \<noteq> Some True \<longrightarrow>
               onObserve (options this) [sample a (50 / 100) y] =
                 Inr (Call JUndefined None [\<lparr>entry_of = sample a (50 / 100) y, inView = False\<rparr>])))"
proof -
  from assms obtain opts where d: "defaults E cfg = Inr opts"
    and vt: "visibleThreshold (options this) = visibleThreshold opts"
    and fi: "forceItem (options this) = forceItem opts"
    by (rule Observer_Inr)
  have one: "orderBy [sample a (50 / 100) y] = [sample a (50 / 100) y]"
    by (simp add: orderBy_def baseSortBy_def)
  have nz: "visibleThreshold (options this) \<noteq> 0"
    unfolding vt defaults_fields(2) [OF d] by (simp split: option.splits)
  moreover have "visibleThreshold (options this) = 85 / 100"
    if "cfg_visibleThreshold cfg = Some 0"
    unfolding vt defaults_fields(2) [OF d] using that by simp
  moreover have "onObserve (options this) [sample a (50 / 100) y] =
                 Inr (Call JUndefined None [\<lparr>entry_of = sample a (50 / 100) y, inView = False\<rparr>])"
    if z: "cfg_visibleThreshold cfg = Some 0" and f: "cfg_forceItem cfg \<noteq> Some True"
  proof -
    have v: "visibleThreshold (options this) = 85 / 100"
      unfolding vt defaults_fields(2) [OF d] using z by simp
    have "\<not> forceItem (options this)"
      unfolding fi defaults_fields(3) [OF d] using f by (auto split: option.splits)
    with v show ?thesis
      unfolding onObserve_def one by (simp add: sample_def Let_def)
  qed
  ultimately show ?thesis by blast
qed

theorem visibleThreshold_zero_not_honored_witness:
  "\<exists>this.
     Observer browser (no_options\<lparr>cfg_visibleThreshold := Some 0\<rparr>) = Inr this \<and>
     cfg_visibleThreshold (no_options\<lparr>cfg_visibleThreshold := Some 0\<rparr>) = Some 0 \<and>
     cfg_forceItem (no_options\<lparr>cfg_visibleThreshold := Some 0\<rparr>) \<noteq> Some True \<and>
     visibleThreshold (options this) = 85 / 100 \<and>
     onObserve (options this) [sample (elem 0 ''a'') (50 / 100) 0] =
       Inr (Call JUndefined None
              [\<lparr>entry_of = sample (elem 0 ''a'') (50 / 100) 0, inView = False\<rparr>])"
proof -
  let ?cfg = "no_options\<lparr>cfg_visibleThreshold := Some 0\<rparr>"
  obtain this where c: "Observer browser ?cfg = Inr this"
    by (simp add: Observer_def defaults_def new_IntersectionObserver_def browser_def
        no_options_def root_truthy_def document_querySelector_def elements_truthy_def)
  have z: "cfg_visibleThreshold ?cfg = Some 0" by simp
  have f: "cfg_forceItem ?cfg \<noteq> Some True" by (simp add: no_options_def)
  from visibleThreshold_zero_not_honored [OF c, of "elem 0 ''a''" 0] z f c
  show ?thesis by blast
qed

text \<open>
  Claim C3, as amended. Configuring \<open>throttle\<close> as \<open>false\<close> disables throttling: the
  callback of the observer is \<open>onObserve\<close> unwrapped and every batch delivered is processed
  at once. With the option left out, or given as 0, the interval is the default 150;
  any other number is the interval of the throttled callback.
\<close>

theorem throttle_false_disables_throttling:
  assumes "Observer E cfg = Inr this" and "observer this = Some io"
  shows "(cfg_throttle cfg = ThrottleFalse \<longrightarrow>
            throttle (options this) = ThrottleFalse \<and> callback io = Unwrapped \<and>
            (\<forall>time entries cs. deliverable io entries \<longrightarrow>
               deliver time entries (this, cs) =
                 (this, cs @ [(time, onObserve (options this) entries)]))) \<and>
         (cfg_throttle cfg = ThrottleUnset \<or> cfg_throttle cfg = ThrottleMs 0 \<longrightarrow>
            throttle (options this) = ThrottleMs 150 \<and>
            callback io = Throttled (throttle_new 150)) \<and>
         (\<forall>w. cfg_throttle cfg = ThrottleMs w \<and> w \<noteq> 0 \<longrightarrow>
            throttle (options this) = ThrottleMs w \<and>
            callback io = Throttled (throttle_new w))"
proof (rule Observer_Inr [OF assms(1)])
  fix opts
  assume d: "defaults E cfg = Inr opts"
    and th: "throttle (options this) = throttle opts"
    and cb: "\<And>io. observer this = Some io \<Longrightarrow>
           callback io =
             (case throttle opts of
                ThrottleMs w \<Rightarrow> if w \<noteq> 0 then Throttled (throttle_new w) else Unwrapped
              | _ \<Rightarrow> Unwrapped)"
  note t = defaults_fields(1) [OF d]
  note c = cb [OF assms(2)]
  have "throttle (options this) = ThrottleFalse \<and> callback io = Unwrapped"
    if "cfg_throttle cfg = ThrottleFalse"
    using that th t c by simp
  moreover have "deliver time entries (this, cs) =
                 (this, cs @ [(time, onObserve (options this) entries)])"
    if "cfg_throttle cfg = ThrottleFalse" and "deliverable io entries" for time entries cs
    using that th t c assms(2) by (simp add: deliver_def)
  moreover have "throttle (options this) = ThrottleMs 150 \<and>
            callback io = Throttled (throttle_new 150)"
    if "cfg_throttle cfg = ThrottleUnset \<or> cfg_throttle cfg = ThrottleMs 0"
    using that th t c by (auto simp: throttle_truthy_def)
  moreover have "throttle (options this) = ThrottleMs w \<and>
            callback io = Throttled (throttle_new w)"
    if "cfg_throttle cfg = ThrottleMs w \<and> w \<noteq> 0" for w
    using that th t c by (auto simp: throttle_truthy_def)
  ultimately show ?thesis by blast
qed

theorem throttle_false_disables_throttling_witness:
  "\<exists>this io.
     Observer browser (no_options\<lparr>cfg_throttle := ThrottleFalse,
                                  cfg_elements := Single (elem 0 ''a'')\<rparr>) = Inr this \<and>
     observer this = Some io \<and>
     deliverable io [sample (elem 0 ''a'') (90 / 100) 0] \<and>
     callback io = Unwrapped \<and>
     deliver 10 [sample (elem 0 ''a'') (90 / 100) 0] (this, []) =
       (this, [(10, onObserve (options this) [sample (elem 0 ''a'') (90 / 100) 0])])"
proof -
  let ?cfg = "no_options\<lparr>cfg_throttle := ThrottleFalse, cfg_elements := Single (elem 0 ''a'')\<rparr>"
  obtain this io where c: "Observer browser ?cfg = Inr this" and o: "observer this = Some io"
    and t: "targets io = [elem 0 ''a'']"
    by (simp add: Observer_def defaults_def new_IntersectionObserver_def browser_def
        no_options_def root_truthy_def document_querySelector_def elements_truthy_def
        addElements_def array_like_branch_def map_registry_def
        push_registry_def observe_def throttle_truthy_def)
  have f: "cfg_throttle ?cfg = ThrottleFalse" by simp
  have dl: "deliverable io [sample (elem 0 ''a'') (90 / 100) 0]"
    by (simp add: deliverable_def t sample_def)
  from throttle_false_disables_throttling [OF c o] f dl
  have "callback io = Unwrapped"
    and "deliver 10 [sample (elem 0 ''a'') (90 / 100) 0] (this, []) =
       (this, [] @ [(10, onObserve (options this) [sample (elem 0 ''a'') (90 / 100) 0])])"
    by blast+
  with c o dl show ?thesis by auto
qed

text \<open>
  The claim as stated fails for 0: the constructor takes 0 for a missing option, the
  callback is throttled with 150 ms, and a batch delivered at 10 ms, after one at 0 ms,
  is not processed before 150 ms.
\<close>

theorem throttle_zero_counterexample:
  "(\<exists>this io.
      Observer browser (no_options\<lparr>cfg_throttle := ThrottleMs 0,
                                   cfg_elements := Single (elem 0 ''a'')\<rparr>) = Inr this \<and>
      observer this = Some io \<and>
      throttle (options this) = ThrottleMs 150 \<and>
      callback io = Throttled (throttle_new 150) \<and> callback io \<noteq> Unwrapped) \<and>
   map_sum id (map fst \<circ> snd)
     (run_new browser (no_options\<lparr>cfg_throttle := ThrottleMs 0,
                                   cfg_elements := Single (elem 0 ''a'')\<rparr>)
        [(0, Deliver [sample (elem 0 ''a'') (90 / 100) 0]),
         (10, Deliver [sample (elem 0 ''a'') (50 / 100) 0])] 149) = Inr [0] \<and>
   map_sum id (map fst \<circ> snd)
     (run_new browser (no_options\<lparr>cfg_throttle := ThrottleMs 0,
                                   cfg_elements := Single (elem 0 ''a'')\<rparr>)
        [(0, Deliver [sample (elem 0 ''a'') (90 / 100) 0]),
         (10, Deliver [sample (elem 0 ''a'') (50 / 100) 0])] 150) = Inr [0, 150]"
proof (intro conjI)
  show "\<exists>this io.
      Observer browser (no_options\<lparr>cfg_throttle := ThrottleMs 0,
                                   cfg_elements := Single (elem 0 ''a'')\<rparr>) = Inr this \<and>
      observer this = Some io \<and>
      throttle (options this) = ThrottleMs 150 \<and>
      callback io = Throttled (throttle_new 150) \<and> callback io \<noteq> Unwrapped"
    by (simp add: Observer_def defaults_def new_IntersectionObserver_def browser_def
        no_options_def root_truthy_def document_querySelector_def elements_truthy_def
        addElements_def array_like_branch_def map_registry_def
        push_registry_def observe_def throttle_truthy_def)
qed code_simp+

section \<open>Without \<open>IntersectionObserver\<close>\<close>

text \<open>
  Claim C4. In a window without \<open>IntersectionObserver\<close> the constructor returns a tracker
  with no observer and \<open>stop\<close> leaves it as it is, but \<open>addElements\<close> with an element
  or with a non-empty array throws a \<open>TypeError\<close>: it calls \<open>this.observer.observe\<close>
  unguarded, where \<open>stop\<close> tests \<open>this.observer\<close>. Where the global \<open>window\<close> is not
  declared at all, the constructor itself throws a \<open>ReferenceError\<close>.
\<close>

theorem addElements_without_IntersectionObserver_throws:
  "Observer (browser\<lparr>window := Window False\<rparr>) no_options =
     Inr \<lparr>options = default_options, observer = None\<rparr> \<and>
   addElements (Single (elem 0 ''a'')) \<lparr>options = default_options, observer = None\<rparr> =
     Inl TypeError \<and>
   addElements (Collection [elem 0 ''a'']) \<lparr>options = default_options, observer = None\<rparr> =
     Inl TypeError \<and>
   stop \<lparr>options = default_options, observer = None\<rparr> =
     \<lparr>options = default_options, observer = None\<rparr> \<and>
   Observer (browser\<lparr>window := WindowFalsy\<rparr>) no_options =
     Inr \<lparr>options = default_options, observer = None\<rparr> \<and>
   Observer (browser\<lparr>window := WindowUndeclared\<rparr>) no_options = Inl ReferenceError \<and>
   Observer (browser\<lparr>window := WindowUndeclared, document_declared := False\<rparr>) no_options =
     Inl ReferenceError"
  by (simp add: Observer_def defaults_def browser_def no_options_def default_options_def
      root_truthy_def document_querySelector_def throttle_truthy_def addElements_def
      array_like_branch_def map_registry_def push_registry_def stop_def)

section \<open>The registry of elements\<close>

text \<open>
  Claim C9. \<open>addElements\<close> with a single element appends it to the registry, twice when
  it is added twice. With an array and a registry that is already an array, the result
  of \<open>concat\<close> is dropped and the registry stays what it was: the elements passed are
  observed but not registered.
\<close>

theorem addElements_collection_not_appended:
  "(\<exists>this1 this2 io.
      Observer browser no_options = Inr this1 \<and>
      addElements (Single (elem 0 ''a'')) this1 = Inr this2 \<and>
      elements (options this2) = Collection [elem 0 ''a''] \<and>
      observer this2 = Some io \<and>
      (\<exists>this3. addElements (Collection [elem 0 ''a'']) this2 = Inr this3 \<and>
         elements (options this3) = Collection [elem 0 ''a''] \<and>
         elements (options this3) \<noteq> Collection ([elem 0 ''a''] @ [elem 0 ''a''])) \<and>
      (\<exists>this3. addElements (Collection [elem 1 ''b'', elem 2 ''c'']) this2 = Inr this3 \<and>
         elements (options this3) = Collection [elem 0 ''a''] \<and>
         elements (options this3) \<noteq> Collection ([elem 0 ''a''] @ [elem 1 ''b'', elem 2 ''c''])) \<and>
      (\<exists>this3. addElements (Single (elem 0 ''a'')) this2 = Inr this3 \<and>
         elements (options this3) = Collection [elem 0 ''a'', elem 0 ''a'']))"
  by (simp add: Observer_def defaults_def new_IntersectionObserver_def browser_def
        no_options_def root_truthy_def document_querySelector_def elements_truthy_def
        addElements_def array_like_branch_def map_registry_def
        push_registry_def observe_def throttle_truthy_def elem_def)

section \<open>\<open>stop\<close>\<close>





text \<open>Where \<open>addElements\<close> throws, on any tracker: on an array-like argument with no
  \<open>forEach\<close> (an \<open>HTMLCollection\<close>, a \<open>form\<close>, a jQuery object) and on a string, on an
  array-like argument with an item that is not an element, and on an element when the
  registry is array-like and has no \<open>push\<close>.\<close>

lemma addElements_without_forEach:
  "addElements (ArrayLike False has_push items) this = Inl TypeError"
  "addElements (StringValue s) this = Inl TypeError"
  by (simp_all add: addElements_def array_like_branch_def Let_def)

lemma addElements_not_an_element:
  assumes "NotElem \<in> set items"
  shows "addElements (ArrayLike has_forEach has_push items) this = Inl TypeError"
proof -
  have "observe_each items io = Inl TypeError" for io
    using assms by (induction items io rule: observe_each.induct) auto
  with assms show ?thesis
    by (auto simp: addElements_def array_like_branch_def Let_def split: option.splits)
qed

lemma addElements_registry_without_push:
  assumes "\<not> pushable (elements (options this))"
  shows "addElements (Single e) this = Inl TypeError"
  using assms
  by (auto simp: addElements_def pushable_def push_registry_def split: elements_value.splits)




section \<open>\<open>stop\<close> and the pending flush\<close>

subsection \<open>Time after \<open>stop\<close>\<close>

lemma advance_no_timer: "pending_timer (fst st) = None \<Longrightarrow> advance t st = st"
  by (simp add: advance.simps [of t st])

lemma advance_not_due: "pending_timer (fst st) = Some due \<Longrightarrow> t < due \<Longrightarrow> advance t st = st"
  by (simp add: advance.simps [of t st])

lemma advance_due:
  "pending_timer (fst st) = Some due \<Longrightarrow> due \<le> t \<Longrightarrow> advance t st = advance t (fire_timer due st)"
  by (simp add: advance.simps [of t st])

lemma advance_advance: "advance t2 (advance t1 st) = advance (max t1 t2) st"
proof (induction t1 st rule: advance.induct)
  case (1 t1 st)
  show ?case
  proof (cases "pending_timer (fst st)")
    case None
    then show ?thesis by (simp add: advance_no_timer)
  next
    case (Some due)
    show ?thesis
    proof (cases "due \<le> t1")
      case True
      with Some have "advance t1 st = advance t1 (fire_timer due st)"
        and "advance (max t1 t2) st = advance (max t1 t2) (fire_timer due st)"
        by (simp_all add: advance_due)
      with "1.IH" [OF Some True] show ?thesis by simp
    next
      case False
      with Some have a: "advance t1 st = st" by (simp add: advance_not_due)
      show ?thesis
      proof (cases "t1 \<le> t2")
        case True
        with a show ?thesis by (simp add: max_def)
      next
        case False
        with \<open>\<not> due \<le> t1\<close> Some have "advance t2 st = st" by (simp add: advance_not_due)
        with a False show ?thesis by (simp add: max_def)
      qed
    qed
  qed
qed

lemma observed_fire_timer: "observed (fst (fire_timer time st)) = observed (fst st)"
  by (cases st)
     (auto simp: fire_timer_def observed_def split: option.splits handler.splits prod.splits)

lemma observed_advance: "observed (fst (advance t st)) = observed (fst st)"
proof (induction t st rule: advance.induct)
  case (1 t st)
  show ?case
  proof (cases "pending_timer (fst st)")
    case None
    then show ?thesis by (simp add: advance_no_timer)
  next
    case (Some due)
    show ?thesis
    proof (cases "due \<le> t")
      case True
      with Some "1.IH" [OF Some True] show ?thesis
        by (simp add: advance_due observed_fire_timer)
    next
      case False
      with Some show ?thesis by (simp add: advance_not_due)
    qed
  qed
qed

lemma stop_unobserved: "observed this = [] \<Longrightarrow> stop this = this"
proof (cases "observer this")
  case None
  then show ?thesis by (simp add: stop_def)
next
  case (Some io)
  assume "observed this = []"
  with Some have "targets io = []" by (simp add: observed_def)
  then have "io\<lparr>targets := []\<rparr> = io" by (cases io) simp
  with Some show ?thesis by (cases this) (simp add: stop_def disconnect_def)
qed

lemma deliver_unobserved:
  "observed this = [] \<Longrightarrow> deliver time entries (this, cs) = (this, cs)"
  by (cases entries)
     (simp_all add: deliver_def deliverable_def observed_def split: option.splits)

lemma step_unobserved:
  assumes "observed (fst st) = []" and "\<forall>els. a \<noteq> AddElements els"
  shows "step time a st = Inr st"
  using assms
  by (cases st; cases a) (simp_all add: step_def deliver_unobserved stop_unobserved)

lemma run_unobserved:
  assumes "observed (fst st) = []" and "\<forall>t els. (t, AddElements els) \<notin> set evs"
  shows "run evs end_time st = Inr (advance (horizon evs end_time) st)"
  using assms
proof (induction evs arbitrary: st)
  case Nil
  show ?case by simp
next
  case (Cons ev evs)
  obtain time a where ev: "ev = (time, a)" by (cases ev)
  from Cons.prems(2) ev have na: "\<forall>els. a \<noteq> AddElements els" by auto
  have o: "observed (fst (advance time st)) = []"
    using Cons.prems(1) by (simp add: observed_advance)
  from Cons.prems(2) have "\<forall>t els. (t, AddElements els) \<notin> set evs" by auto
  from Cons.IH [OF o this]
  have "run evs end_time (advance time st) =
          Inr (advance (horizon evs end_time) (advance time st))" .
  with step_unobserved [OF o na, of time] ev show ?case
    by (simp add: advance_advance)
qed

subsection \<open>What the timer flushes\<close>

lemma rearmed_shouldInvoke:
  "\<not> shouldInvoke d due \<Longrightarrow>
     shouldInvoke (d\<lparr>timerId := x\<rparr>) (due + max 0 (remainingWait d due))"
  by (auto simp: shouldInvoke_def remainingWait_def min_def max_def split: option.splits)

lemma flush_time_ge: "due \<le> flush_time d due"
  by (simp add: flush_time_def)

lemma pending_flush_no_timer: "pending_timer this = None \<Longrightarrow> pending_flush this = None"
  by (auto simp: pending_timer_def pending_flush_def split: option.splits handler.splits)

lemma advance_trailing:
  assumes o: "observer this = Some io" and c: "callback io = Throttled d"
    and t: "timerId d = Some due" and si: "shouldInvoke d due" and le: "due \<le> H"
  shows "snd (advance H (this, cs)) =
           cs @ (case lastArgs d of None \<Rightarrow> [] | Some args \<Rightarrow> [(due, onObserve (options this) args)])"
proof -
  from o c t have p: "pending_timer (fst (this, cs)) = Some due"
    by (simp add: pending_timer_def)
  obtain this1 cs1 where f: "fire_timer due (this, cs) = (this1, cs1)"
    by (cases "fire_timer due (this, cs)")
  have "pending_timer this1 = None \<and>
        cs1 = cs @ (case lastArgs d of None \<Rightarrow> [] | Some args \<Rightarrow> [(due, onObserve (options this) args)])"
  proof (cases "lastArgs d")
    case None
    with f o c si show ?thesis
      by (auto simp: fire_timer_def timerExpired_def trailingEdge_def pending_timer_def)
  next
    case (Some args)
    with f o c si show ?thesis
      by (auto simp: fire_timer_def timerExpired_def trailingEdge_def invokeFunc_def
            pending_timer_def)
  qed
  with advance_due [OF p le] f show ?thesis
    by (simp add: advance_no_timer)
qed

lemma advance_flush:
  "snd (advance H (this, cs)) =
     cs @ (case pending_flush this of
             None \<Rightarrow> []
           | Some (t, args) \<Rightarrow> if t \<le> H then [(t, onObserve (options this) args)] else [])"
proof (cases "pending_timer this")
  case None
  then show ?thesis
    by (simp add: advance_no_timer pending_flush_no_timer)
next
  case (Some due)
  then obtain io d where o: "observer this = Some io" and c: "callback io = Throttled d"
    and t: "timerId d = Some due"
    by (auto simp: pending_timer_def split: option.splits handler.splits)
  have pf: "pending_flush this =
              (case lastArgs d of None \<Rightarrow> None | Some args \<Rightarrow> Some (flush_time d due, args))"
    using o c t by (simp add: pending_flush_def)
  show ?thesis
  proof (cases "due \<le> H")
    case False
    with flush_time_ge [of due d] have "\<not> flush_time d due \<le> H" by simp
    with False Some show ?thesis
      by (simp add: advance_not_due pf split: option.splits)
  next
    case True
    show ?thesis
    proof (cases "shouldInvoke d due")
      case si: True
      then have "flush_time d due = due" by (simp add: flush_time_def)
      with advance_trailing [OF o c t si True, of cs] True show ?thesis
        by (simp add: pf split: option.splits)
    next
      case nsi: False
      define due' where "due' = due + max 0 (remainingWait d due)"
      define d1 where "d1 = d\<lparr>timerId := Some due'\<rparr>"
      define this1 where "this1 = this\<lparr>observer := Some (io\<lparr>callback := Throttled d1\<rparr>)\<rparr>"
      have ft: "flush_time d due = due'"
        using nsi by (simp add: flush_time_def due'_def)
      have f: "fire_timer due (this, cs) = (this1, cs)"
        using o c nsi
        by (simp add: fire_timer_def timerExpired_def setTimeout_def this1_def d1_def due'_def)
      have p: "pending_timer (fst (this, cs)) = Some due"
        using Some by simp
      have a: "advance H (this, cs) = advance H (this1, cs)"
        using advance_due [OF p True] f by simp
      have o1: "observer this1 = Some (io\<lparr>callback := Throttled d1\<rparr>)"
        and c1: "callback (io\<lparr>callback := Throttled d1\<rparr>) = Throttled d1"
        and t1: "timerId d1 = Some due'" and la: "lastArgs d1 = lastArgs d"
        and op: "options this1 = options this"
        by (simp_all add: this1_def d1_def)
      have si1: "shouldInvoke d1 due'"
        unfolding d1_def due'_def by (rule rearmed_shouldInvoke [OF nsi])
      show ?thesis
      proof (cases "due' \<le> H")
        case True
        from advance_trailing [OF o1 c1 t1 si1 True, of cs] a True ft show ?thesis
          by (simp add: pf la op split: option.splits)
      next
        case False
        have "pending_timer (fst (this1, cs)) = Some due'"
          using o1 t1 by (simp add: pending_timer_def)
        with False have "advance H (this1, cs) = (this1, cs)"
          by (simp add: advance_not_due)
        with a False ft show ?thesis
          by (simp add: pf split: option.splits)
      qed
    qed
  qed
qed

lemma pending_flush_stop: "pending_flush (stop this) = pending_flush this"
  by (simp add: pending_flush_def stop_def disconnect_def split: option.splits)

lemma observed_stop: "observed (stop this) = []"
  by (simp add: observed_def stop_def disconnect_def split: option.splits)

lemma options_stop: "options (stop this) = options this"
  by (simp add: stop_def split: option.splits)

text \<open>
  Claim C5, as amended. \<open>stop\<close> disconnects the observer and does not cancel the timer
  of the throttle wrapper. After \<open>stop\<close>, whatever batches the run holds and whenever
  \<open>stop\<close> is called again (with no \<open>addElements\<close>), the calls of \<open>onObserve\<close> that
  follow are exactly these: when a flush was pending at \<open>stop\<close> (a timer and a batch
  held) and the run reaches its time, one call, made at that time with the batch held;
  and none otherwise, that is with no timer, with a timer and no batch held, or when
  the run ends before the flush.
\<close>

theorem stop_keeps_pending_flush:
  assumes "\<forall>t els. (t, AddElements els) \<notin> set evs"
  shows "\<exists>this'.
           run evs end_time (stop this, cs) =
             Inr (this',
                  cs @ (case pending_flush this of
                          None \<Rightarrow> []
                        | Some (t, args) \<Rightarrow>
                            if t \<le> horizon evs end_time
                            then [(t, onObserve (options this) args)]
                            else []))"
proof -
  have "observed (fst (stop this, cs)) = []"
    by (simp add: observed_stop)
  from run_unobserved [OF this assms, of end_time]
  have r: "run evs end_time (stop this, cs) =
             Inr (advance (horizon evs end_time) (stop this, cs))" .
  have "snd (advance (horizon evs end_time) (stop this, cs)) =
          cs @ (case pending_flush this of
                  None \<Rightarrow> []
                | Some (t, args) \<Rightarrow>
                    if t \<le> horizon evs end_time
                    then [(t, onObserve (options this) args)]
                    else [])"
    using advance_flush [of "horizon evs end_time" "stop this" cs]
    unfolding pending_flush_stop options_stop .
  with r show ?thesis
    by (metis prod.collapse)
qed

theorem stop_keeps_pending_flush_witness:
  "\<exists>this cs this'.
     run_new browser throttled_config
       [(0, Deliver [sample (elem 0 ''a'') (50 / 100) 0]),
        (10, Deliver [sample (elem 0 ''a'') (90 / 100) 0])] 100 = Inr (this, cs) \<and>
     pending_flush this = Some (150, [sample (elem 0 ''a'') (90 / 100) 0]) \<and>
     (\<forall>t els. (t, AddElements els) \<notin>
        set [(120, Deliver [sample (elem 0 ''a'') (50 / 100) 0]), (130, Stop)]) \<and>
     run [(120, Deliver [sample (elem 0 ''a'') (50 / 100) 0]), (130, Stop)] 200
       (stop this, cs) =
       Inr (this', cs @ [(150, onObserve (options this) [sample (elem 0 ''a'') (90 / 100) 0])])"
proof -
  let ?before = "[(0, Deliver [sample (elem 0 ''a'') (50 / 100) 0]),
                  (10, Deliver [sample (elem 0 ''a'') (90 / 100) 0])]"
  let ?after = "[(120, Deliver [sample (elem 0 ''a'') (50 / 100) 0]), (130, Stop)]"
  have "map_sum id (pending_flush \<circ> fst) (run_new browser throttled_config ?before 100) =
          Inr (Some (150, [sample (elem 0 ''a'') (90 / 100) 0]))"
    by code_simp
  then obtain this cs where r: "run_new browser throttled_config ?before 100 = Inr (this, cs)"
    and pf: "pending_flush this = Some (150, [sample (elem 0 ''a'') (90 / 100) 0])"
    by (cases "run_new browser throttled_config ?before 100") auto
  have h: "\<forall>t els. (t, AddElements els) \<notin> set ?after"
    by simp
  from stop_keeps_pending_flush [OF h, of 200 this cs] pf
  obtain this' where
    "run ?after 200 (stop this, cs) =
       Inr (this', cs @ [(150, onObserve (options this) [sample (elem 0 ''a'') (90 / 100) 0])])"
    by auto
  with r pf h show ?thesis by blast
qed

text \<open>
  The claim as stated fails: with \<open>throttle = 150\<close>, batches at 0 and 10 ms and \<open>stop\<close>
  at 100 ms, the timer is still due at 150 ms after \<open>stop\<close>, and at 150 ms \<open>onObserve\<close>
  is called with the batch of 10 ms.
\<close>

theorem stop_pending_flush_counterexample:
  "map_sum id (pending_timer \<circ> fst)
     (run_new browser throttled_config
        [(0, Deliver [sample (elem 0 ''a'') (50 / 100) 0]),
         (10, Deliver [sample (elem 0 ''a'') (90 / 100) 0]),
         (100, Stop)] 100) = Inr (Some 150) \<and>
   map_sum id snd
     (run_new browser throttled_config
        [(0, Deliver [sample (elem 0 ''a'') (50 / 100) 0]),
         (10, Deliver [sample (elem 0 ''a'') (90 / 100) 0]),
         (100, Stop)] 150) =
     Inr [(0, Inr (Call JUndefined None
                     [\<lparr>entry_of = sample (elem 0 ''a'') (50 / 100) 0, inView = False\<rparr>])),
          (150, Inr (Call (JString ''a'')
                       (Some \<lparr>entry_of = sample (elem 0 ''a'') (90 / 100) 0, inView = True\<rparr>)
                       [\<lparr>entry_of = sample (elem 0 ''a'') (90 / 100) 0, inView = True\<rparr>]))]"
  by (intro conjI; code_simp)

section \<open>The rate of the throttled callback\<close>

lemma sorted_le_last:
  assumes "sorted (map fst cs)" and "i < length cs"
  shows "fst (cs ! i) \<le> fst (last cs)"
proof -
  from assms(2) have ne: "cs \<noteq> []" by auto
  have "map fst cs ! i \<le> map fst cs ! (length cs - 1)"
    using assms by (intro sorted_nth_mono) auto
  with assms(2) ne show ?thesis by (simp add: last_conv_nth)
qed

lemma sorted_snoc:
  assumes "sorted (map fst cs)" and "cs \<noteq> [] \<longrightarrow> fst (last cs) \<le> t"
  shows "sorted (map fst (cs @ [(t, r)]))"
proof -
  have "fst x \<le> t" if "x \<in> set cs" for x
  proof -
    from that obtain i where "i < length cs" "cs ! i = x" by (auto simp: in_set_conv_nth)
    with sorted_le_last [OF assms(1), of i] assms(2) show ?thesis by auto
  qed
  with assms(1) show ?thesis by (auto simp: sorted_append)
qed

lemma spaced_snoc:
  assumes "spaced w cs" and "2 \<le> length cs \<longrightarrow> fst (cs ! (length cs - 2)) + w \<le> t"
  shows "spaced w (cs @ [(t, r)])"
  unfolding spaced_def
proof (intro allI impI)
  fix i assume i: "i + 2 < length (cs @ [(t, r)])"
  show "fst ((cs @ [(t, r)]) ! i) + w \<le> fst ((cs @ [(t, r)]) ! (i + 2))"
  proof (cases "i + 2 < length cs")
    case True
    with assms(1) show ?thesis by (simp add: spaced_def nth_append)
  next
    case False
    with i have eq: "i + 2 = length cs" by simp
    then have "i = length cs - 2" "2 \<le> length cs" "i < length cs" by simp_all
    with assms(2) eq show ?thesis by (simp add: nth_append)
  qed
qed

lemma invokeFunc_inv:
  assumes "wait d = w" and "sorted (map fst cs)" and "spaced w cs"
    and "lastCallTime d = Some lct" and "lct \<le> now" and "t \<le> now"
    and "cs \<noteq> [] \<longrightarrow> fst (last cs) \<le> t"
    and "2 \<le> length cs \<longrightarrow> fst (cs ! (length cs - 2)) + w \<le> t"
    and "cs \<noteq> [] \<longrightarrow> fst (last cs) + w \<le> t \<or> t \<le> lct"
    and "\<forall>due. timerId d = Some due \<longrightarrow> t + w \<le> due"
  shows "throttle_inv w now (invokeFunc opts t (d, cs))"
proof -
  let ?r = "onObserve opts (case lastArgs d of Some args \<Rightarrow> args | None \<Rightarrow> [])"
  have s: "sorted (map fst (cs @ [(t, ?r)]))"
    using assms(2,7) by (rule sorted_snoc)
  have sp: "spaced w (cs @ [(t, ?r)])"
    using assms(3,8) by (rule spaced_snoc)
  have j: "2 \<le> length (cs @ [(t, ?r)]) \<longrightarrow>
             fst ((cs @ [(t, ?r)]) ! (length (cs @ [(t, ?r)]) - 2)) + w \<le> t \<or> t \<le> lct"
  proof
    assume "2 \<le> length (cs @ [(t, ?r)])"
    then have ne: "cs \<noteq> []" by auto
    then have "(cs @ [(t, ?r)]) ! (length (cs @ [(t, ?r)]) - 2) = last cs"
      by (simp add: nth_append last_conv_nth)
    with assms(9) ne show "fst ((cs @ [(t, ?r)]) ! (length (cs @ [(t, ?r)]) - 2)) + w \<le> t \<or> t \<le> lct"
      by simp
  qed
  from s sp j assms(1,4,5,6,10) show ?thesis
    unfolding throttle_inv_def invokeFunc_def by simp
qed

lemma throttle_inv_mono: "throttle_inv w now st \<Longrightarrow> now \<le> now' \<Longrightarrow> throttle_inv w now' st"
  by (cases st) (auto simp: throttle_inv_def split: option.splits)

lemma timerExpired_inv:
  assumes w: "0 < w" and inv: "throttle_inv w now (d, cs)" and timer: "timerId d = Some due"
  shows "throttle_inv w (max now due) (timerExpired opts due (d, cs))"
proof -
  from inv timer obtain lct where lct: "lastCallTime d = Some lct"
    by (cases "lastCallTime d") (auto simp: throttle_inv_def)
  from inv lct timer have
    wd: "wait d = w" and srt: "sorted (map fst cs)" and sp: "spaced w cs" and
    l: "lct \<le> now" and ne: "cs \<noteq> []" and lst: "fst (last cs) = lastInvokeTime d" and
    due: "lastInvokeTime d + w \<le> due"
    by (auto simp: throttle_inv_def)
  from due wd lct have si: "shouldInvoke d due"
    by (simp add: shouldInvoke_def)
  show ?thesis
  proof (cases "lastArgs d")
    case None
    from inv have "throttle_inv w now (d\<lparr>timerId := None, lastArgs := None\<rparr>, cs)"
      by (auto simp: throttle_inv_def split: option.splits)
    then have "throttle_inv w (max now due) (d\<lparr>timerId := None, lastArgs := None\<rparr>, cs)"
      by (rule throttle_inv_mono) simp
    with si None show ?thesis
      by (simp add: timerExpired_def trailingEdge_def)
  next
    case (Some args)
    have two: "2 \<le> length cs \<longrightarrow> fst (cs ! (length cs - 2)) + w \<le> due"
    proof
      assume "2 \<le> length cs"
      then have "fst (cs ! (length cs - 2)) \<le> fst (last cs)"
        by (intro sorted_le_last [OF srt]) simp
      with lst due show "fst (cs ! (length cs - 2)) + w \<le> due" by simp
    qed
    have "throttle_inv w (max now due) (invokeFunc opts due (d\<lparr>timerId := None\<rparr>, cs))"
      using wd srt sp lct l lst due w two
      by (intro invokeFunc_inv [where lct = lct]) auto
    with si Some show ?thesis
      by (simp add: timerExpired_def trailingEdge_def)
  qed
qed

lemma debounced_call_inv:
  assumes w: "0 < w" and inv: "throttle_inv w t (d, cs)"
  shows "throttle_inv w t (debounced_call opts t args (d, cs))"
proof (cases "lastCallTime d")
  case None
  with inv have wd: "wait d = w" and t: "timerId d = None" and cs: "cs = []"
    by (auto simp: throttle_inv_def)
  have "throttle_inv w t
          (invokeFunc opts t
            (d\<lparr>lastArgs := Some args, lastCallTime := Some t, lastInvokeTime := t,
               timerId := setTimeout t w\<rparr>, cs))"
    using wd cs w by (intro invokeFunc_inv [where lct = t]) (auto simp: spaced_def setTimeout_def)
  with None t wd show ?thesis
    by (simp add: debounced_call_def shouldInvoke_def leadingEdge_def Let_def)
next
  case (Some lct)
  with inv have
    wd: "wait d = w" and srt: "sorted (map fst cs)" and sp: "spaced w cs" and
    l: "lct \<le> t" and li: "lastInvokeTime d \<le> t" and ne: "cs \<noteq> []" and
    lst: "fst (last cs) = lastInvokeTime d" and
    j: "2 \<le> length cs \<longrightarrow>
          fst (cs ! (length cs - 2)) + w \<le> lastInvokeTime d \<or> lastInvokeTime d \<le> lct" and
    tm: "\<forall>due. timerId d = Some due \<longrightarrow> lastInvokeTime d + w \<le> due"
    by (auto simp: throttle_inv_def)
  show ?thesis
  proof (cases "shouldInvoke d t")
    case True
    with Some l wd have gap: "lct + w \<le> t \<or> lastInvokeTime d + w \<le> t"
      by (auto simp: shouldInvoke_def)
    have two: "2 \<le> length cs \<longrightarrow> fst (cs ! (length cs - 2)) + w \<le> t"
    proof
      assume len: "2 \<le> length cs"
      then have le: "fst (cs ! (length cs - 2)) \<le> lastInvokeTime d"
        using sorted_le_last [OF srt, of "length cs - 2"] lst by simp
      from j len have "fst (cs ! (length cs - 2)) + w \<le> lastInvokeTime d \<or> lastInvokeTime d \<le> lct"
        by simp
      with gap le li w show "fst (cs ! (length cs - 2)) + w \<le> t" by linarith
    qed
    have a: "throttle_inv w t
          (invokeFunc opts t
            (d\<lparr>lastArgs := Some args, lastCallTime := Some t, lastInvokeTime := t,
               timerId := setTimeout t w\<rparr>, cs))"
      using wd srt sp lst li w two
      by (intro invokeFunc_inv [where lct = t]) (auto simp: setTimeout_def)
    have b: "throttle_inv w t
          (invokeFunc opts t
            (d\<lparr>lastArgs := Some args, lastCallTime := Some t,
               timerId := setTimeout t w\<rparr>, cs))"
      using wd srt sp lst li w two
      by (intro invokeFunc_inv [where lct = t]) (auto simp: setTimeout_def)
    from True a b wd show ?thesis
      by (simp add: debounced_call_def leadingEdge_def Let_def)
  next
    case False
    have "throttle_inv w t (d\<lparr>lastArgs := Some args, lastCallTime := Some t\<rparr>, cs)"
      using inv Some li by (auto simp: throttle_inv_def)
    moreover have "throttle_inv w t
        (d\<lparr>lastArgs := Some args, lastCallTime := Some t, timerId := setTimeout t w\<rparr>, cs)"
      using inv Some li w by (auto simp: throttle_inv_def setTimeout_def)
    ultimately show ?thesis
      using False wd by (simp add: debounced_call_def Let_def)
  qed
qed

lemma tracker_inv_mono: "tracker_inv w now st \<Longrightarrow> now \<le> now' \<Longrightarrow> tracker_inv w now' st"
  by (cases st) (auto simp: tracker_inv_def intro: throttle_inv_mono)

lemma fire_timer_inv:
  assumes "0 < w" and "tracker_inv w now st" and "pending_timer (fst st) = Some due"
  shows "tracker_inv w (max now due) (fire_timer due st)"
proof -
  obtain this cs where st: "st = (this, cs)" by (cases st)
  with assms(2) obtain io d where o: "observer this = Some io" and c: "callback io = Throttled d"
    and inv: "throttle_inv w now (d, cs)"
    by (auto simp: tracker_inv_def)
  from assms(3) st o c have t: "timerId d = Some due"
    by (simp add: pending_timer_def)
  obtain d' cs' where e: "timerExpired (options this) due (d, cs) = (d', cs')"
    by (cases "timerExpired (options this) due (d, cs)")
  from timerExpired_inv [OF assms(1) inv t, of "options this"] e
  have "throttle_inv w (max now due) (d', cs')" by simp
  with st o c e show ?thesis
    by (simp add: fire_timer_def tracker_inv_def)
qed

lemma advance_inv:
  assumes "0 < w"
  shows "tracker_inv w now st \<Longrightarrow> tracker_inv w (max now t) (advance t st)"
proof (induction t st arbitrary: now rule: advance.induct)
  case (1 t st)
  show ?case
  proof (cases "pending_timer (fst st)")
    case None
    then have "advance t st = st" by (simp add: advance.simps [of t st])
    with "1.prems" show ?thesis by (auto intro: tracker_inv_mono)
  next
    case (Some due)
    show ?thesis
    proof (cases "due \<le> t")
      case False
      with Some have "advance t st = st" by (simp add: advance.simps [of t st])
      with "1.prems" show ?thesis by (auto intro: tracker_inv_mono)
    next
      case True
      with Some have adv: "advance t st = advance t (fire_timer due st)"
        by (simp add: advance.simps [of t st])
      from fire_timer_inv [OF assms "1.prems" Some]
      have "tracker_inv w (max now due) (fire_timer due st)" .
      from "1.IH" [OF Some True this]
      have "tracker_inv w (max (max now due) t) (advance t (fire_timer due st))" .
      moreover from True have "max (max now due) t = max now t" by simp
      ultimately show ?thesis using adv by simp
    qed
  qed
qed

lemma deliver_inv:
  assumes "0 < w" and "tracker_inv w t st"
  shows "tracker_inv w t (deliver t entries st)"
proof -
  obtain this cs where st: "st = (this, cs)" by (cases st)
  with assms(2) obtain io d where o: "observer this = Some io" and c: "callback io = Throttled d"
    and inv: "throttle_inv w t (d, cs)"
    by (auto simp: tracker_inv_def)
  obtain d' cs' where e: "debounced_call (options this) t entries (d, cs) = (d', cs')"
    by (cases "debounced_call (options this) t entries (d, cs)")
  from debounced_call_inv [OF assms(1) inv, of "options this" entries] e
  have "throttle_inv w t (d', cs')" by simp
  with st o c e inv show ?thesis
    by (simp add: deliver_def tracker_inv_def)
qed

lemma step_inv:
  assumes "0 < w" and "tracker_inv w t st" and "step t a st = Inr st'"
  shows "tracker_inv w t st'"
proof -
  obtain this cs where st: "st = (this, cs)" by (cases st)
  with assms(2) obtain io d where o: "observer this = Some io" and c: "callback io = Throttled d"
    and inv: "throttle_inv w t (d, cs)"
    by (auto simp: tracker_inv_def)
  show ?thesis
  proof (cases a)
    case (Deliver entries)
    with assms deliver_inv [OF assms(1,2), of entries] st show ?thesis
      by (simp add: step_def)
  next
    case (AddElements els)
    with assms(3) st obtain this' where a: "addElements els this = Inr this'"
      and st': "st' = (this', cs)"
      by (auto simp: step_def split: sum.splits)
    from addElements_callback [OF a o] c inv st' show ?thesis
      by (auto simp: tracker_inv_def)
  next
    case Stop
    with assms(3) st o c inv show ?thesis
      by (auto simp: step_def stop_def disconnect_def tracker_inv_def)
  qed
qed

lemma run_inv:
  assumes "0 < w"
  shows "tracker_inv w now st \<Longrightarrow> sorted (map fst evs) \<Longrightarrow> \<forall>ev\<in>set evs. now \<le> fst ev \<Longrightarrow>
         run evs end_time st = Inr st' \<Longrightarrow> \<exists>now'. tracker_inv w now' st'"
proof (induction evs arbitrary: now st)
  case Nil
  from advance_inv [OF assms Nil.prems(1), of end_time] Nil.prems(4)
  show ?case by auto
next
  case (Cons ev evs)
  obtain t a where ev: "ev = (t, a)" by (cases ev)
  from Cons.prems(3) ev have "now \<le> t" by simp
  with advance_inv [OF assms Cons.prems(1), of t]
  have i1: "tracker_inv w t (advance t st)" by (simp add: max_def)
  from Cons.prems(4) ev obtain st1 where s: "step t a (advance t st) = Inr st1"
    and r: "run evs end_time st1 = Inr st'"
    by (auto split: sum.splits)
  from step_inv [OF assms i1 s] have i2: "tracker_inv w t st1" .
  from Cons.prems(2) ev have "sorted (map fst evs)" "\<forall>ev\<in>set evs. t \<le> fst ev"
    by auto
  from Cons.IH [OF i2 this r] show ?case .
qed

text \<open>
  Claim C6, as amended. The wrapper calls on the leading edge as well as on the trailing
  edge. For a tracker freshly throttled with a positive interval \<open>w\<close> and any actions in
  time order, the calls of \<open>onObserve\<close> are in time order and any three consecutive
  calls span at least \<open>w\<close>: at most two calls fall in a window shorter than \<open>w\<close>. With
  \<open>throttle = 150\<close>, the five batches delivered at 0, 10, 20, 30 and 140 ms produce
  exactly two calls: one at 0 ms with the first batch and one at 150 ms, not before,
  with the batch delivered at 140 ms.
\<close>

theorem throttle_leading_and_trailing:
  assumes "0 < w" and "observer this = Some io" and "callback io = Throttled (throttle_new w)"
    and "sorted (map fst evs)" and "run evs end_time (this, []) = Inr (this', cs)"
  shows "sorted (map fst cs) \<and>
         (\<forall>i. i + 2 < length cs \<longrightarrow> fst (cs ! i) + w \<le> fst (cs ! (i + 2))) \<and>
         map_sum id snd (run_new browser throttled_config five_batches 149) =
           Inr [(0, Inr (Call JUndefined None
                           [\<lparr>entry_of = sample (elem 0 ''a'') (10 / 100) 0, inView = False\<rparr>]))] \<and>
         map_sum id snd (run_new browser throttled_config five_batches 150) =
           Inr [(0, Inr (Call JUndefined None
                           [\<lparr>entry_of = sample (elem 0 ''a'') (10 / 100) 0, inView = False\<rparr>])),
                (150, Inr (Call (JString ''a'')
                             (Some \<lparr>entry_of = sample (elem 0 ''a'') (90 / 100) 0, inView = True\<rparr>)
                             [\<lparr>entry_of = sample (elem 0 ''a'') (90 / 100) 0, inView = True\<rparr>]))] \<and>
         map_sum id snd (run_new browser throttled_config five_batches 1000) =
           map_sum id snd (run_new browser throttled_config five_batches 150)"
proof -
  define now where "now = (case evs of [] \<Rightarrow> 0 | ev # _ \<Rightarrow> fst ev)"
  have i0: "tracker_inv w now (this, [])"
    using assms(2,3)
    by (simp add: tracker_inv_def throttle_inv_def throttle_new_def spaced_def)
  have "\<forall>ev\<in>set evs. now \<le> fst ev"
    using assms(4) by (cases evs) (auto simp: now_def)
  from run_inv [OF assms(1) i0 assms(4) this assms(5)]
  obtain now' where "tracker_inv w now' (this', cs)" ..
  then have "sorted (map fst cs)"
    and "\<forall>i. i + 2 < length cs \<longrightarrow> fst (cs ! i) + w \<le> fst (cs ! (i + 2))"
    by (auto simp: tracker_inv_def throttle_inv_def spaced_def)
  moreover have "map_sum id snd (run_new browser throttled_config five_batches 149) =
           Inr [(0, Inr (Call JUndefined None
                           [\<lparr>entry_of = sample (elem 0 ''a'') (10 / 100) 0, inView = False\<rparr>]))]"
    by code_simp
  moreover have "map_sum id snd (run_new browser throttled_config five_batches 150) =
           Inr [(0, Inr (Call JUndefined None
                           [\<lparr>entry_of = sample (elem 0 ''a'') (10 / 100) 0, inView = False\<rparr>])),
                (150, Inr (Call (JString ''a'')
                             (Some \<lparr>entry_of = sample (elem 0 ''a'') (90 / 100) 0, inView = True\<rparr>)
                             [\<lparr>entry_of = sample (elem 0 ''a'') (90 / 100) 0, inView = True\<rparr>]))]"
    by code_simp
  moreover have "map_sum id snd (run_new browser throttled_config five_batches 1000) =
           map_sum id snd (run_new browser throttled_config five_batches 150)"
    by code_simp
  ultimately show ?thesis by (intro conjI)
qed

theorem throttle_leading_and_trailing_witness:
  "\<exists>this io this' cs.
     (0::int) < 150 \<and>
     Observer browser throttled_config = Inr this \<and>
     observer this = Some io \<and> callback io = Throttled (throttle_new 150) \<and>
     sorted (map fst five_batches) \<and>
     run five_batches 1000 (this, []) = Inr (this', cs) \<and>
     sorted (map fst cs) \<and>
     (\<forall>i. i + 2 < length cs \<longrightarrow> fst (cs ! i) + 150 \<le> fst (cs ! (i + 2)))"
proof -
  obtain this io where c: "Observer browser throttled_config = Inr this"
    and o: "observer this = Some io" and cb: "callback io = Throttled (throttle_new 150)"
    by (simp add: Observer_def defaults_def new_IntersectionObserver_def browser_def
        no_options_def root_truthy_def document_querySelector_def elements_truthy_def
        addElements_def array_like_branch_def map_registry_def
        push_registry_def observe_def throttle_truthy_def throttled_config_def)
  have s: "sorted (map fst five_batches)"
    by (simp add: five_batches_def)
  have "\<not> isl (run_new browser throttled_config five_batches 1000)"
    by code_simp
  with c obtain this' cs where r: "run five_batches 1000 (this, []) = Inr (this', cs)"
    by (cases "run five_batches 1000 (this, [])") (auto simp: run_new_def)
  have w: "(0::int) < 150" by simp
  from throttle_leading_and_trailing [OF w o cb s r] w c o cb s r
  show ?thesis by blast
qed

text \<open>
  The claim as stated fails twice: the five batches produce two calls, not one; and
  batches at 0, 100 and 260 ms produce calls at 0, 150 and 260 ms, the last two less
  than 150 ms apart.
\<close>

theorem throttle_exactly_one_call_counterexample:
  "map_sum id (map fst \<circ> snd) (run_new browser throttled_config five_batches 1000) =
     Inr [0, 150] \<and>
   map_sum id (map fst \<circ> snd)
     (run_new browser throttled_config
        [(0, Deliver [sample (elem 0 ''a'') (10 / 100) 0]),
         (100, Deliver [sample (elem 0 ''a'') (20 / 100) 0]),
         (260, Deliver [sample (elem 0 ''a'') (30 / 100) 0])] 1000) =
     Inr [0, 150, 260]"
  by (intro conjI; code_simp)

end
